theory Spec2Isabelle
  imports Main "HOL-Library.Multiset"
begin

section \<open>Python strings\<close>

text \<open>
  The link validation engine of \<^verbatim>\<open>02.ENH/gnb/gnb.py\<close> and \<^verbatim>\<open>02.ENH/shop/shop.py\<close>
  works on Python strings. A string is modelled as a \<^typ>\<open>string\<close>, one \<^typ>\<open>char\<close> per
  code point, which covers the code points below 256. The helpers below are the
  operations of \<^verbatim>\<open>str\<close> that the engine and the URL functions of the interpreter's
  \<^verbatim>\<open>urllib.parse\<close> use.
\<close>

definition py_find :: "char \<Rightarrow> string \<Rightarrow> nat option" where
  "py_find c s = (if c \<in> set s then Some (length (takeWhile (\<lambda>x. x \<noteq> c) s)) else None)"

definition py_rfind :: "char \<Rightarrow> string \<Rightarrow> nat option" where
  "py_rfind c s =
     (if c \<in> set s then Some (length s - Suc (length (takeWhile (\<lambda>x. x \<noteq> c) (rev s))))
      else None)"

definition startswith :: "string \<Rightarrow> string \<Rightarrow> bool" where
  "startswith s p = (take (length p) s = p)"

text \<open>\<^verbatim>\<open>s.rstrip('/')\<close>.\<close>

definition rstrip_slash :: "string \<Rightarrow> string" where
  "rstrip_slash s = rev (dropWhile (\<lambda>c. c = CHR ''/'') (rev s))"

text \<open>
  \<^verbatim>\<open>str.isspace\<close> on one character: the code points 9 to 13, 28 to 32, 133 and 160
  are the white space below 256. \<^verbatim>\<open>s.strip()\<close> removes them at both ends.
\<close>

definition is_space :: "char \<Rightarrow> bool" where
  "is_space c = ((of_char c :: nat) \<in> set [9, 10, 11, 12, 13, 28, 29, 30, 31, 32, 133, 160])"

definition py_strip :: "string \<Rightarrow> string" where
  "py_strip s = rev (dropWhile is_space (rev (dropWhile is_space s)))"

text \<open>\<^verbatim>\<open>s.replace(' ', '')\<close>.\<close>

definition remove_spaces :: "string \<Rightarrow> string" where
  "remove_spaces s = filter (\<lambda>c. c \<noteq> CHR '' '') s"

definition is_ascii_alpha :: "char \<Rightarrow> bool" where
  "is_ascii_alpha c =
     (let k = (of_char c :: nat) in if 65 \<le> k \<and> k \<le> 90 then True else 97 \<le> k \<and> k \<le> 122)"

definition py_lower :: "char \<Rightarrow> char" where
  "py_lower c =
     (let k = (of_char c :: nat) in if 65 \<le> k \<and> k \<le> 90 then char_of (k + 32) else c)"

text \<open>\<^verbatim>\<open>str(i)\<close> of an integer, as the f-strings of the validator print a status code.\<close>

function str_nat :: "nat \<Rightarrow> string" where
  "str_nat n = (if n < 10 then [char_of (48 + n)] else str_nat (n div 10) @ [char_of (48 + n mod 10)])"
  by pat_completeness auto
termination
  by (relation "measure id") auto

declare str_nat.simps [simp del]

definition str_int :: "int \<Rightarrow> string" where
  "str_int i = (if i < 0 then CHR ''-'' # str_nat (nat (- i)) else str_nat (nat i))"

section \<open>The interpreter's \<^verbatim>\<open>urllib.parse\<close>\<close>

text \<open>
  \<^verbatim>\<open>standardize_url\<close> and \<^verbatim>\<open>refine_url\<close> call \<^verbatim>\<open>urlparse\<close> and \<^verbatim>\<open>urlunparse\<close> of the
  standard library. They are written out here from \<^verbatim>\<open>Lib/urllib/parse.py\<close> of
  CPython 3.11, for \<^verbatim>\<open>str\<close> arguments, the default scheme \<^verbatim>\<open>''\<close> and
  \<^verbatim>\<open>allow_fragments=True\<close>. \<^verbatim>\<open>_checknetloc\<close> rejects a network location only when its NFKC
  normal form brings in one of \<^verbatim>\<open>/?#@:\<close>, which no code point below 256 does, so it is
  the identity here. \<^verbatim>\<open>_check_bracketed_host\<close>, which validates an IPv6 or IPvFuture
  literal through the \<^verbatim>\<open>ipaddress\<close> module, is the parameter \<open>bh\<close>: it gives the message of
  the \<^verbatim>\<open>ValueError\<close> for a host it rejects. A \<^verbatim>\<open>ValueError\<close> is the \<open>Inl\<close> of a result and
  carries its message.
\<close>

type_synonym bracket_check = "string \<Rightarrow> string option"

definition uses_netloc :: "string list" where
  "uses_netloc = ['''', ''ftp'', ''http'', ''gopher'', ''nntp'', ''telnet'',
     ''imap'', ''wais'', ''file'', ''mms'', ''https'', ''shttp'',
     ''snews'', ''prospero'', ''rtsp'', ''rtsps'', ''rtspu'', ''rsync'',
     ''svn'', ''svn+ssh'', ''sftp'', ''nfs'', ''git'', ''git+ssh'',
     ''ws'', ''wss'', ''itms-services'']"

definition uses_params :: "string list" where
  "uses_params = ['''', ''ftp'', ''hdl'', ''prospero'', ''http'', ''imap'',
     ''https'', ''shttp'', ''rtsp'', ''rtsps'', ''rtspu'', ''sip'',
     ''sips'', ''mms'', ''sftp'', ''tel'']"

definition scheme_chars :: "string" where
  "scheme_chars = ''abcdefghijklmnopqrstuvwxyzABCDEFGHIJKLMNOPQRSTUVWXYZ0123456789+-.''"

text \<open>\<^verbatim>\<open>_WHATWG_C0_CONTROL_OR_SPACE\<close>: the code points 0 to 32.\<close>

definition c0_control_or_space :: "char \<Rightarrow> bool" where
  "c0_control_or_space c = ((of_char c :: nat) \<le> 32)"

text \<open>\<^verbatim>\<open>_UNSAFE_URL_BYTES_TO_REMOVE\<close>: tab, carriage return and line feed.\<close>

definition unsafe_url_byte :: "char \<Rightarrow> bool" where
  "unsafe_url_byte c = ((of_char c :: nat) \<in> set [9, 13, 10])"

text \<open>\<^verbatim>\<open>s.split(c, 1)\<close> for a \<open>c\<close> that occurs in \<open>s\<close>.\<close>

definition split_once :: "char \<Rightarrow> string \<Rightarrow> string \<times> string" where
  "split_once c s = (takeWhile (\<lambda>x. x \<noteq> c) s, drop 1 (dropWhile (\<lambda>x. x \<noteq> c) s))"

text \<open>\<^verbatim>\<open>_splitnetloc(url, 2)\<close>: the text after the two slashes up to the first of \<^verbatim>\<open>/?#\<close>.\<close>

definition splitnetloc :: "string \<Rightarrow> string \<times> string" where
  "splitnetloc url2 =
     (let rest = drop 2 url2
      in (takeWhile (\<lambda>c. c \<notin> set ''/?#'') rest, dropWhile (\<lambda>c. c \<notin> set ''/?#'') rest))"

text \<open>The scheme prefix of \<^verbatim>\<open>urlsplit\<close>: \<^verbatim>\<open>(scheme, rest)\<close>.\<close>

definition split_scheme :: "string \<Rightarrow> string \<times> string" where
  "split_scheme u =
     (case py_find CHR '':'' u of
        None \<Rightarrow> ('''', u)
      | Some i \<Rightarrow>
          if 0 < i \<and> is_ascii_alpha (hd u) \<and> list_all (\<lambda>c. c \<in> set scheme_chars) (take i u)
          then (map py_lower (take i u), drop (Suc i) u)
          else ('''', u))"

text \<open>The query and fragment of \<^verbatim>\<open>urlsplit\<close>: \<^verbatim>\<open>(path, query, fragment)\<close>.\<close>

definition split_tail :: "string \<Rightarrow> string \<times> string \<times> string" where
  "split_tail u =
     (let (u1, frag) = (if CHR ''#'' \<in> set u then split_once CHR ''#'' u else (u, ''''));
          (u2, qry) = (if CHR ''?'' \<in> set u1 then split_once CHR ''?'' u1 else (u1, ''''))
      in (u2, qry, frag))"

text \<open>\<^verbatim>\<open>netloc.partition('[')[2].partition(']')[0]\<close>.\<close>

definition bracketed_host :: "string \<Rightarrow> string" where
  "bracketed_host nl =
     takeWhile (\<lambda>c. c \<noteq> CHR '']'') (drop 1 (dropWhile (\<lambda>c. c \<noteq> CHR ''['') nl))"

text \<open>\<^verbatim>\<open>urlsplit\<close>: \<^verbatim>\<open>(scheme, netloc, path, query, fragment)\<close>.\<close>

definition urlsplit ::
  "bracket_check \<Rightarrow> string \<Rightarrow> string + (string \<times> string \<times> string \<times> string \<times> string)" where
  "urlsplit bh url0 =
     (let u1 = dropWhile c0_control_or_space url0;
          u2 = filter (\<lambda>c. \<not> unsafe_url_byte c) u1;
          (sch, u3) = split_scheme u2
      in if take 2 u3 = ''//'' then
           (let (nl, u4) = splitnetloc u3;
                opn = (CHR ''['' \<in> set nl);
                cls = (CHR '']'' \<in> set nl)
            in if opn \<noteq> cls then Inl ''Invalid IPv6 URL''
               else if opn then
                 (case bh (bracketed_host nl) of
                    Some msg \<Rightarrow> Inl msg
                  | None \<Rightarrow> Inr (sch, nl, split_tail u4))
               else Inr (sch, nl, split_tail u4))
         else Inr (sch, '''', split_tail u3))"

text \<open>\<^verbatim>\<open>_splitparams\<close>, called on a path that contains a semicolon.\<close>

definition splitparams :: "string \<Rightarrow> string \<times> string" where
  "splitparams u =
     (case py_rfind CHR ''/'' u of
        Some k \<Rightarrow>
          (case py_find CHR '';'' (drop k u) of
             None \<Rightarrow> (u, '''')
           | Some j \<Rightarrow> (take (k + j) u, drop (Suc (k + j)) u))
      | None \<Rightarrow>
          (case py_find CHR '';'' u of
             None \<Rightarrow> (take (length u - 1) u, u)
           | Some i \<Rightarrow> (take i u, drop (Suc i) u)))"

record parse_result =
  scheme :: string
  netloc :: string
  path :: string
  params :: string
  query :: string
  fragment :: string

definition urlparse :: "bracket_check \<Rightarrow> string \<Rightarrow> string + parse_result" where
  "urlparse bh u =
     (case urlsplit bh u of
        Inl e \<Rightarrow> Inl e
      | Inr (sch, nl, p, q, f) \<Rightarrow>
          (let (p', prm) = (if sch \<in> set uses_params \<and> CHR '';'' \<in> set p
                            then splitparams p else (p, ''''))
           in Inr \<lparr>scheme = sch, netloc = nl, path = p', params = prm,
                     query = q, fragment = f\<rparr>))"

definition urlunsplit :: "string \<Rightarrow> string \<Rightarrow> string \<Rightarrow> string \<Rightarrow> string \<Rightarrow> string" where
  "urlunsplit sch nl u q f =
     (let u1 = (if nl \<noteq> '''' then ''//'' @ nl @ (if u \<noteq> '''' \<and> take 1 u \<noteq> ''/'' then CHR ''/'' # u else u)
                else if sch \<noteq> '''' \<and> sch \<in> set uses_netloc then
                  ''//'' @ (if u \<noteq> '''' \<and> take 1 u \<noteq> ''/'' then CHR ''/'' # u else u)
                else if take 2 u = ''//'' then ''//'' @ u
                else u);
          u2 = (if sch \<noteq> '''' then sch @ '':'' @ u1 else u1);
          u3 = (if q \<noteq> '''' then u2 @ ''?'' @ q else u2)
      in if f \<noteq> '''' then u3 @ ''#'' @ f else u3)"

definition urlunparse :: "parse_result \<Rightarrow> string" where
  "urlunparse r =
     urlunsplit (scheme r) (netloc r)
       (if params r \<noteq> '''' then path r @ '';'' @ params r else path r)
       (query r) (fragment r)"

section \<open>The URL normalizer of \<^verbatim>\<open>utility/utils.py\<close>\<close>

definition standardize_url :: "bracket_check \<Rightarrow> string \<Rightarrow> string + string" where
  "standardize_url bh u =
     (case urlparse bh u of
        Inl e \<Rightarrow> Inl e
      | Inr parsed \<Rightarrow> Inr (urlunparse (parsed\<lparr>path := rstrip_slash (path parsed)\<rparr>)))"

definition refine_url :: "bracket_check \<Rightarrow> string \<Rightarrow> string \<Rightarrow> string + string" where
  "refine_url bh url0 base_domain =
     (if url0 = '''' then Inr url0
      else
        (let u = remove_spaces (py_strip url0)
         in if startswith u ''//'' then
              (case urlparse bh base_domain of
                 Inl e \<Rightarrow> Inl e
               | Inr parsed_base \<Rightarrow>
                   Inr ((if scheme parsed_base \<noteq> '''' then scheme parsed_base else ''https'') @ '':'' @ u))
            else
              (case urlparse bh u of
                 Inl e \<Rightarrow> Inl e
               | Inr parsed \<Rightarrow>
                   if netloc parsed = '''' then
                     Inr (rstrip_slash base_domain @ (if startswith u ''/'' then u else CHR ''/'' # u))
                   else Inr u)))"

section \<open>Menu nodes\<close>

text \<open>
  \<^verbatim>\<open>GnbMenuNode\<close> and \<^verbatim>\<open>ShopMenuNode\<close> carry the same fields as far as the link check
  reads or writes them (\<^verbatim>\<open>ShopMenuNode\<close> has \<^verbatim>\<open>desc\<close> and \<^verbatim>\<open>meta\<close> besides, which the check
  never touches). The children of a node are kept in the tree, see below.
\<close>

record node =
  node_type :: string
  name :: string
  url :: string
  name_verify :: bool
  url_verify :: bool
  link_status :: int
  link_validate :: bool
  link_validate_desc :: string

section \<open>The single link validator\<close>

text \<open>
  One pass of the retry loop of \<^verbatim>\<open>validate_node\<close> opens a tab, navigates, waits for the
  body and closes the tab. What the browser does in one pass is an \<open>attempt\<close>:
  \<^item> \<open>NewPageRaises r\<close>: \<^verbatim>\<open>context.new_page()\<close> raises;
  \<^item> \<open>NavRaises r\<close>: \<^verbatim>\<open>new_page.goto\<close> or \<^verbatim>\<open>new_page.wait_for_selector\<close> raises;
  \<^item> \<open>NoResponse c\<close>: \<^verbatim>\<open>goto\<close> returns \<^verbatim>\<open>None\<close>, and \<open>c\<close> is what \<^verbatim>\<open>new_page.close()\<close> raises;
  \<^item> \<open>Response st u c\<close>: \<^verbatim>\<open>goto\<close> returns a response with \<^verbatim>\<open>status\<close> \<open>st\<close> and \<^verbatim>\<open>url\<close>
    \<open>u\<close>, and \<open>c\<close> is what \<^verbatim>\<open>new_page.close()\<close> raises.
  A raised exception is \<open>Exc msg\<close> when it is an instance of \<^verbatim>\<open>Exception\<close>, which the
  handler of the loop catches. The other exceptions leave \<^verbatim>\<open>validate_node\<close>:
  \<open>Interrupt msg\<close> is a \<^verbatim>\<open>KeyboardInterrupt\<close> or a \<^verbatim>\<open>SystemExit\<close>, which the event loop
  re-raises, and \<open>BaseExc msg\<close> is any other one (\<^verbatim>\<open>asyncio.CancelledError\<close>);
  \<open>msg\<close> is \<^verbatim>\<open>str(e)\<close>. The second \<^verbatim>\<open>close()\<close> inside the handler has its own handler and
  no effect on the node, and the logger does not raise.
\<close>

datatype raised = Exc string | BaseExc string | Interrupt string

datatype attempt =
    NewPageRaises raised
  | NavRaises raised
  | NoResponse "raised option"
  | Response int string "raised option"

text \<open>
  The end of one pass: \<open>Done\<close> is the \<^verbatim>\<open>return\<close> inside the loop, \<open>Again sc\<close> falls
  through to \<^verbatim>\<open>retries += 1\<close> with the local \<^verbatim>\<open>status_code\<close> equal to \<open>sc\<close>, and \<open>Escaped\<close>
  is an exception that propagates to the caller.
\<close>

datatype step = Done node | Again int node | Escaped raised node

definition on_raise :: "raised \<Rightarrow> int \<Rightarrow> node \<Rightarrow> step" where
  "on_raise r sc n =
     (case r of
        Exc e \<Rightarrow> Again sc (n\<lparr>link_validate_desc := ''Exception: '' @ e\<rparr>)
      | BaseExc e \<Rightarrow> Escaped r n
      | Interrupt e \<Rightarrow> Escaped r n)"

definition on_no_response :: "raised option \<Rightarrow> int \<Rightarrow> node \<Rightarrow> step" where
  "on_no_response cl sc n =
     (let n1 = n\<lparr>link_validate_desc := ''No response''\<rparr>
      in case cl of None \<Rightarrow> Again sc n1 | Some r \<Rightarrow> on_raise r sc n1)"

definition on_response ::
  "bracket_check \<Rightarrow> string \<Rightarrow> int \<Rightarrow> string \<Rightarrow> raised option \<Rightarrow> node \<Rightarrow> step" where
  "on_response bh refined st final cl n =
     (let n1 = n\<lparr>link_status := st\<rparr>
      in if st = 200 then
           (case standardize_url bh refined of
              Inl e \<Rightarrow> on_raise (Exc e) st n1
            | Inr s1 \<Rightarrow>
                (case standardize_url bh final of
                   Inl e \<Rightarrow> on_raise (Exc e) st n1
                 | Inr s2 \<Rightarrow>
                     (let n2 = n1\<lparr>link_validate_desc :=
                                      (if s1 \<noteq> s2 then ''Redirected to '' @ final else ''''),
                                    link_validate := True\<rparr>
                      in case cl of None \<Rightarrow> Done n2 | Some r \<Rightarrow> on_raise r st n2)))
         else
           (let n2 = n1\<lparr>link_validate_desc := ''HTTP '' @ str_int st\<rparr>
            in case cl of None \<Rightarrow> Done n2 | Some r \<Rightarrow> on_raise r st n2))"

fun attempt_once :: "bracket_check \<Rightarrow> string \<Rightarrow> int \<Rightarrow> node \<Rightarrow> attempt \<Rightarrow> step" where
  "attempt_once bh base_url sc n (NewPageRaises r) = on_raise r sc n"
| "attempt_once bh base_url sc n (NavRaises r) =
     (case refine_url bh (url n) base_url of
        Inl e \<Rightarrow> on_raise (Exc e) sc n
      | Inr refined \<Rightarrow> on_raise r sc n)"
| "attempt_once bh base_url sc n (NoResponse cl) =
     (case refine_url bh (url n) base_url of
        Inl e \<Rightarrow> on_raise (Exc e) sc n
      | Inr refined \<Rightarrow> on_no_response cl sc n)"
| "attempt_once bh base_url sc n (Response st final cl) =
     (case refine_url bh (url n) base_url of
        Inl e \<Rightarrow> on_raise (Exc e) sc n
      | Inr refined \<Rightarrow> on_response bh refined st final cl n)"

text \<open>
  The result of a validator call: the exception that left it, if any, the node as the
  call leaves it, and the node as it was at the start of each pass of the loop, in
  order. The number of attempts is the length of that list.
\<close>

type_synonym verdict = "raised option \<times> node \<times> node list"

text \<open>
  The loop \<^verbatim>\<open>while retries < max_retries\<close>. \<open>env k\<close> is what the browser does in the pass
  with \<^verbatim>\<open>retries == k\<close>.
\<close>

function validate_loop ::
  "bracket_check \<Rightarrow> string \<Rightarrow> (nat \<Rightarrow> attempt) \<Rightarrow> nat \<Rightarrow> nat \<Rightarrow> int \<Rightarrow> node \<Rightarrow> verdict" where
  "validate_loop bh base_url env max_retries retries status_code n =
     (if retries < max_retries then
        (case attempt_once bh base_url status_code n (env retries) of
           Done n' \<Rightarrow> (None, n', [n])
         | Escaped e n' \<Rightarrow> (Some e, n', [n])
         | Again sc n' \<Rightarrow>
             (case validate_loop bh base_url env max_retries (Suc retries) sc n' of
                (ex, m, seen) \<Rightarrow> (ex, m, n # seen)))
      else (None, n\<lparr>link_status := status_code\<rparr>, []))"
  by pat_completeness auto
termination
  by (relation "measure (\<lambda>(bh, base_url, env, max_retries, retries, sc, n). max_retries - retries)") auto

declare validate_loop.simps [simp del]

text \<open>
  \<^verbatim>\<open>base_url\<close>: scheme and host of \<^verbatim>\<open>page.url\<close>, and the empty string when parsing it raises.
\<close>

definition base_url_of :: "bracket_check \<Rightarrow> string \<Rightarrow> string" where
  "base_url_of bh page_url =
     (case urlparse bh page_url of
        Inl e \<Rightarrow> ''''
      | Inr p \<Rightarrow> scheme p @ ''://'' @ netloc p)"

definition reset_result :: "node \<Rightarrow> node" where
  "reset_result n = n\<lparr>link_validate := False, link_status := - 1, link_validate_desc := ''''\<rparr>"

text \<open>\<^verbatim>\<open>validate_node\<close> of \<^verbatim>\<open>gnb.py\<close>, with \<^verbatim>\<open>max_retries\<close> at its default 5 as the worker calls it.\<close>

definition gnb_validate_node ::
  "bracket_check \<Rightarrow> string \<Rightarrow> (nat \<Rightarrow> attempt) \<Rightarrow> node \<Rightarrow> verdict" where
  "gnb_validate_node bh page_url env n =
     (let n0 = reset_result n
      in if url n0 = '''' then (None, n0\<lparr>link_validate_desc := ''[Status:-1] Empty url''\<rparr>, [])
         else validate_loop bh (base_url_of bh page_url) env 5 0 (- 1) n0)"

text \<open>\<^verbatim>\<open>validate_node\<close> of \<^verbatim>\<open>shop.py\<close>: the same, after the two cases for L0 and L1 nodes without a link.\<close>

definition shop_validate_node ::
  "bracket_check \<Rightarrow> string \<Rightarrow> (nat \<Rightarrow> attempt) \<Rightarrow> node \<Rightarrow> verdict" where
  "shop_validate_node bh page_url env n =
     (let n0 = reset_result n
      in if node_type n0 = ''L0'' \<and> url n0 = '''' then
           (None, n0\<lparr>link_validate := True, link_status := - 1,
                      link_validate_desc := ''L0 has no link by design''\<rparr>, [])
         else if node_type n0 = ''L1'' \<and> url n0 = '''' then
           (None, n0\<lparr>link_validate := False, link_status := - 1,
                      link_validate_desc := ''Has no link''\<rparr>, [])
         else if url n0 = '''' then
           (None, n0\<lparr>link_validate_desc := ''[Status:-1] Empty url''\<rparr>, [])
         else validate_loop bh (base_url_of bh page_url) env 5 0 (- 1) n0)"

section \<open>The concurrency setting\<close>

text \<open>
  \<^verbatim>\<open>int(os.getenv("LINKVALIDATE_COUNT", 2))\<close>. The environment gives a string or nothing;
  \<^verbatim>\<open>int\<close> of a string skips white space at both ends, reads an optional sign and then
  decimal digits, single underscores allowed between digits, and raises \<^verbatim>\<open>ValueError\<close> on
  anything else and on more than 4300 digits (the interpreter's default limit).
\<close>

datatype exn = ValueError

definition int_space :: "char \<Rightarrow> bool" where
  "int_space c = ((of_char c :: nat) \<in> set [9, 10, 11, 12, 13, 32, 133, 160])"

definition is_digit :: "char \<Rightarrow> bool" where
  "is_digit c = (let k = (of_char c :: nat) in 48 \<le> k \<and> k \<le> 57)"

fun digits_ok :: "string \<Rightarrow> bool" where
  "digits_ok [] = False"
| "digits_ok [c] = is_digit c"
| "digits_ok (c # d # cs) =
     (is_digit c \<and> (if d = CHR ''_'' then digits_ok cs else digits_ok (d # cs)))"

definition digits_value :: "string \<Rightarrow> int" where
  "digits_value s =
     foldl (\<lambda>a c. 10 * a + (int (of_char c) - 48)) 0 (filter is_digit s)"

definition py_int :: "string \<Rightarrow> exn + int" where
  "py_int s =
     (let t = rev (dropWhile int_space (rev (dropWhile int_space s)));
          (neg, body) = (case t of
                           [] \<Rightarrow> (False, t)
                         | c # cs \<Rightarrow> if c = CHR ''-'' then (True, cs)
                                     else if c = CHR ''+'' then (False, cs)
                                     else (False, t))
      in if digits_ok body \<and> length (filter is_digit body) \<le> 4300
         then Inr (if neg then - digits_value body else digits_value body)
         else Inl ValueError)"

definition max_concurrent :: "string option \<Rightarrow> exn + int" where
  "max_concurrent getenv = (case getenv of None \<Rightarrow> Inr 2 | Some s \<Rightarrow> py_int s)"

section \<open>The tree and the work queue\<close>

text \<open>
  The nodes are objects that the validator mutates in place: a node is a reference into
  a store, and the tree holds the references. \<^verbatim>\<open>flatten_with_link\<close> reads the fields
  from the store.
\<close>

type_synonym ref = nat

type_synonym heap = "ref \<Rightarrow> node"

datatype tree = Tree ref "tree list"

fun gnb_flatten_with_link :: "heap \<Rightarrow> tree \<Rightarrow> ref list" where
  "gnb_flatten_with_link h (Tree r cs) =
     (if url (h r) \<noteq> '''' then [r] else []) @ concat (map (gnb_flatten_with_link h) cs)"

fun shop_flatten_with_link :: "heap \<Rightarrow> tree \<Rightarrow> ref list" where
  "shop_flatten_with_link h (Tree r cs) =
     (if (if url (h r) \<noteq> '''' then True else node_type (h r) \<in> set [''L0'', ''L1''])
      then [r] else [])
     @ concat (map (shop_flatten_with_link h) cs)"

text \<open>A queue item: \<^verbatim>\<open>(node, idx, total)\<close>, with \<^verbatim>\<open>idx\<close> counted from 1.\<close>

type_synonym item = "ref \<times> nat \<times> nat"

definition enqueue_all :: "ref list \<Rightarrow> item list" where
  "enqueue_all all_nodes =
     map (\<lambda>(idx, r). (r, idx, length all_nodes)) (zip [1 ..< Suc (length all_nodes)] all_nodes)"

section \<open>The worker pool\<close>

text \<open>
  A worker task waits in \<^verbatim>\<open>queue.get()\<close>, runs the validator on the item it got, or has
  ended with the exception that left its loop: \<open>Dead\<close> when the exception ended the
  task only, \<open>Interrupted\<close> when it was a \<^verbatim>\<open>KeyboardInterrupt\<close> or a \<^verbatim>\<open>SystemExit\<close>, which
  the task re-raises into the event loop. The pool is the state that the tasks share:
  the queue, its counter of unfinished tasks, the workers and the store of the nodes.
  \<open>handed\<close> and \<open>validated\<close> are a record of the run: which worker was handed which
  node, and the nodes on which a validator call has ended, in order.
\<close>

datatype worker = Waiting | Running item | Dead string | Interrupted string

record pool =
  queue :: "item list"
  unfinished :: nat
  workers :: "worker list"
  store :: heap
  handed :: "(nat \<times> ref) list"
  validated :: "ref list"

text \<open>
  The validator as the worker sees it: called on an item and on the node as it is in
  the store, it leaves the node changed, and an exception when one escapes.
\<close>

type_synonym validator = "item \<Rightarrow> node \<Rightarrow> raised option \<times> node"

definition gnb_validator ::
  "bracket_check \<Rightarrow> string \<Rightarrow> (nat \<Rightarrow> nat \<Rightarrow> attempt) \<Rightarrow> validator" where
  "gnb_validator bh page_url env it n =
     (case gnb_validate_node bh page_url (env (fst (snd it))) n of (ex, m, seen) \<Rightarrow> (ex, m))"

definition shop_validator ::
  "bracket_check \<Rightarrow> string \<Rightarrow> (nat \<Rightarrow> nat \<Rightarrow> attempt) \<Rightarrow> validator" where
  "shop_validator bh page_url env it n =
     (case shop_validate_node bh page_url (env (fst (snd it))) n of (ex, m, seen) \<Rightarrow> (ex, m))"

definition is_interrupt :: "raised \<Rightarrow> bool" where
  "is_interrupt r = (case r of Interrupt e \<Rightarrow> True | _ \<Rightarrow> False)"

definition message :: "raised \<Rightarrow> string" where
  "message r = (case r of Exc e \<Rightarrow> e | BaseExc e \<Rightarrow> e | Interrupt e \<Rightarrow> e)"

definition is_interrupted :: "worker \<Rightarrow> bool" where
  "is_interrupted w = (case w of Interrupted e \<Rightarrow> True | _ \<Rightarrow> False)"

text \<open>
  The event loop has stopped when a worker task has re-raised a \<^verbatim>\<open>KeyboardInterrupt\<close> or
  a \<^verbatim>\<open>SystemExit\<close> into it (\<^verbatim>\<open>Task.__step\<close> of \<^verbatim>\<open>asyncio\<close> sets the exception on the task
  and raises it again): the exception leaves \<^verbatim>\<open>run_until_complete\<close>. The tasks that are
  left are then only cancelled; no worker takes an item or returns from a validator call
  any more, and \<^verbatim>\<open>check_link_validity\<close> does not return.
\<close>

definition stopped :: "pool \<Rightarrow> bool" where
  "stopped p = list_ex is_interrupted (workers p)"

text \<open>
  One step of the event loop, while it has not stopped. \<open>get\<close>: a waiting worker takes
  the head of the queue. \<open>finish\<close>: the validator call of a worker returns, the worker
  calls \<^verbatim>\<open>task_done()\<close> and waits again. \<open>crash\<close>: the validator call raises; the
  \<^verbatim>\<open>finally\<close> clause calls \<^verbatim>\<open>task_done()\<close> and the exception ends the worker, whose loop has
  no handler for it. \<open>interrupt\<close>: the same for a \<^verbatim>\<open>KeyboardInterrupt\<close> or a
  \<^verbatim>\<open>SystemExit\<close>, which also stops the event loop.
  The writes of a validator call to its node are committed with the step that ends it.
  \<^verbatim>\<open>task_done()\<close> raises when the counter is not positive; in a run the counter counts
  the items in the queue and with the workers (\<open>once_inv\<close> below), so it is positive
  in the steps that decrement it.
\<close>

inductive pool_step :: "validator \<Rightarrow> pool \<Rightarrow> pool \<Rightarrow> bool" for v :: validator where
  get: "\<not> stopped p \<Longrightarrow> i < length (workers p) \<Longrightarrow> workers p ! i = Waiting \<Longrightarrow>
        queue p = it # q \<Longrightarrow>
        pool_step v p
          (p\<lparr>queue := q, workers := (workers p)[i := Running it],
             handed := handed p @ [(i, fst it)]\<rparr>)"
| finish: "\<not> stopped p \<Longrightarrow> i < length (workers p) \<Longrightarrow> workers p ! i = Running it \<Longrightarrow>
        v it (store p (fst it)) = (None, n') \<Longrightarrow>
        pool_step v p
          (p\<lparr>unfinished := unfinished p - 1, workers := (workers p)[i := Waiting],
             store := (store p)(fst it := n'), validated := validated p @ [fst it]\<rparr>)"
| crash: "\<not> stopped p \<Longrightarrow> i < length (workers p) \<Longrightarrow> workers p ! i = Running it \<Longrightarrow>
        v it (store p (fst it)) = (Some r, n') \<Longrightarrow> \<not> is_interrupt r \<Longrightarrow>
        pool_step v p
          (p\<lparr>unfinished := unfinished p - 1, workers := (workers p)[i := Dead (message r)],
             store := (store p)(fst it := n'), validated := validated p @ [fst it]\<rparr>)"
| interrupt: "\<not> stopped p \<Longrightarrow> i < length (workers p) \<Longrightarrow> workers p ! i = Running it \<Longrightarrow>
        v it (store p (fst it)) = (Some r, n') \<Longrightarrow> is_interrupt r \<Longrightarrow>
        pool_step v p
          (p\<lparr>unfinished := unfinished p - 1,
             workers := (workers p)[i := Interrupted (message r)],
             store := (store p)(fst it := n'), validated := validated p @ [fst it]\<rparr>)"

text \<open>
  \<^verbatim>\<open>check_link_validity\<close> up to the start of the workers: the concurrency setting is read
  first, then the trees are flattened, the queue is filled and \<^verbatim>\<open>max_concurrent\<close> worker
  tasks are created (\<^verbatim>\<open>range\<close> of a negative number is empty).
\<close>

definition init_pool :: "nat \<Rightarrow> heap \<Rightarrow> ref list \<Rightarrow> pool" where
  "init_pool k h all_nodes =
     \<lparr>queue = enqueue_all all_nodes, unfinished = length all_nodes,
      workers = replicate k Waiting, store = h, handed = [], validated = []\<rparr>"

definition gnb_start :: "string option \<Rightarrow> heap \<Rightarrow> tree list \<Rightarrow> exn + pool" where
  "gnb_start getenv h nodes =
     (case max_concurrent getenv of
        Inl e \<Rightarrow> Inl e
      | Inr k \<Rightarrow> Inr (init_pool (nat k) h (concat (map (gnb_flatten_with_link h) nodes))))"

definition shop_start :: "string option \<Rightarrow> heap \<Rightarrow> tree list \<Rightarrow> exn + pool" where
  "shop_start getenv h nodes =
     (case max_concurrent getenv of
        Inl e \<Rightarrow> Inl e
      | Inr k \<Rightarrow> Inr (init_pool (nat k) h (concat (map (shop_flatten_with_link h) nodes))))"

text \<open>
  \<^verbatim>\<open>await queue.join()\<close> returns once the counter of unfinished tasks is zero; the workers
  are then cancelled and \<^verbatim>\<open>check_link_validity\<close> returns.
\<close>

definition joined :: "pool \<Rightarrow> bool" where
  "joined p = (unfinished p = 0)"


text \<open>The node that worker \<open>i\<close> is validating, if any.\<close>

definition running_ref :: "worker \<Rightarrow> ref option" where
  "running_ref w = (case w of Running it \<Rightarrow> Some (fst it) | _ \<Rightarrow> None)"

section \<open>Auxiliary notions for the statements\<close>

text \<open>
  The constructor of both node classes: \<^verbatim>\<open>__init__(self, node_type, name, url)\<close> sets the
  result fields to \<^verbatim>\<open>-1\<close>, \<^verbatim>\<open>False\<close> and \<^verbatim>\<open>""\<close>.
\<close>

definition new_node :: "string \<Rightarrow> string \<Rightarrow> string \<Rightarrow> node" where
  "new_node t nm u =
     \<lparr>node_type = t, name = nm, url = u, name_verify = False, url_verify = False,
      link_status = - 1, link_validate = False, link_validate_desc = ''''\<rparr>"

text \<open>
  An attempt that fails and is retried, with the description it leaves on the node:
  an \<^verbatim>\<open>Exception\<close> from the browser, or no response object.
\<close>

fun failed_desc :: "attempt \<Rightarrow> string option" where
  "failed_desc (NewPageRaises (Exc e)) = Some (''Exception: '' @ e)"
| "failed_desc (NavRaises (Exc e)) = Some (''Exception: '' @ e)"
| "failed_desc (NoResponse None) = Some ''No response''"
| "failed_desc (NoResponse (Some (Exc e))) = Some (''Exception: '' @ e)"
| "failed_desc a = None"

text \<open>The number of passes of the retry loop that a validator call made.\<close>

definition attempts :: "verdict \<Rightarrow> nat" where
  "attempts v = length (snd (snd v))"

definition final_node :: "verdict \<Rightarrow> node" where
  "final_node v = fst (snd v)"

text \<open>A bracket check for URLs without brackets, where it is never consulted.\<close>

definition no_bracket_check :: bracket_check where
  "no_bracket_check h = None"

text \<open>
  A set \<open>S\<close> of nodes frames a pool when the queue, the workers and the record of the
  run hold nodes of \<open>S\<close> only, and the store outside \<open>S\<close> is the store \<open>h0\<close>.
\<close>

definition frame_inv :: "ref set \<Rightarrow> heap \<Rightarrow> pool \<Rightarrow> bool" where
  "frame_inv S h0 p =
     (fst ` set (queue p) \<subseteq> S \<and> snd ` set (handed p) \<subseteq> S \<and> set (validated p) \<subseteq> S
      \<and> (\<forall>w\<in>set (workers p). \<forall>r. running_ref w = Some r \<longrightarrow> r \<in> S)
      \<and> (\<forall>r. r \<notin> S \<longrightarrow> store p r = h0 r))"

text \<open>
  A node that a run has left alone: it is not in the queue, no worker was handed it or
  is validating it, no validator call on it has ended, and it is in the store as it
  was in \<open>h0\<close>.
\<close>

definition untouched :: "heap \<Rightarrow> pool \<Rightarrow> ref \<Rightarrow> bool" where
  "untouched h0 p r =
     (r \<notin> fst ` set (queue p) \<and> r \<notin> snd ` set (handed p) \<and> r \<notin> set (validated p)
      \<and> list_all (\<lambda>w. running_ref w \<noteq> Some r) (workers p)
      \<and> store p r = h0 r)"

text \<open>The nodes that the workers are validating, in the order of the workers.\<close>

definition running_refs :: "worker list \<Rightarrow> ref list" where
  "running_refs ws = List.map_filter running_ref ws"

text \<open>
  A small menu for the examples: an L0 entry without a link, which the caller has
  marked as not applicable, and below it an entry with a link.
\<close>

definition example_heap :: heap where
  "example_heap r =
     (if r = 0 then (new_node ''L0'' ''Mobile'' '''')\<lparr>link_validate_desc := ''not applicable''\<rparr>
      else new_node ''L1'' ''Phones'' ''/uk/phones/'')"

definition example_menu :: "tree list" where
  "example_menu = [Tree 0 [Tree 1 []]]"

text \<open>
  The bookkeeping of a run that started with the nodes \<open>refs0\<close> in the queue: every
  occurrence of a node is in exactly one place (validated, with a worker, or still in
  the queue), the queue hands the nodes out in order, and the counter of unfinished
  tasks counts the nodes that are with a worker or in the queue.
\<close>

definition once_inv :: "ref list \<Rightarrow> pool \<Rightarrow> bool" where
  "once_inv refs0 p =
     (mset (validated p) + mset (running_refs (workers p)) + mset (map fst (queue p)) = mset refs0
      \<and> map snd (handed p) @ map fst (queue p) = refs0
      \<and> unfinished p = length (running_refs (workers p)) + length (queue p))"

definition example_links :: "tree list" where
  "example_links = [Tree 1 [], Tree 2 []]"

text \<open>
  A browser for the examples: the navigation of the first queue item is cancelled,
  every other page loads.
\<close>

definition first_item_cancelled :: "nat \<Rightarrow> nat \<Rightarrow> attempt" where
  "first_item_cancelled idx k =
     (if idx = 1 then NavRaises (BaseExc ''CancelledError'')
      else Response 200 ''https://example.com/uk/phones'' None)"

text \<open>What is left to do in a pool: two steps for an item in the queue, one for an item
  with a worker.\<close>

definition work_left :: "pool \<Rightarrow> nat" where
  "work_left p = 2 * length (queue p) + length (running_refs (workers p))"

text \<open>A worker that has not ended.\<close>

definition is_alive :: "worker \<Rightarrow> bool" where
  "is_alive w = (case w of Waiting \<Rightarrow> True | Running it \<Rightarrow> True | _ \<Rightarrow> False)"

text \<open>A validator that raises on none of the items that are in the queue or with a worker.\<close>

definition pending_items :: "pool \<Rightarrow> item list" where
  "pending_items p =
     queue p @ concat (map (\<lambda>w. case w of Running it \<Rightarrow> [it] | _ \<Rightarrow> []) (workers p))"

definition quiet_on :: "validator \<Rightarrow> item list \<Rightarrow> bool" where
  "quiet_on v its = list_all (\<lambda>it. \<forall>n. fst (v it n) = None) its"

text \<open>A browser in which every page loads.\<close>

definition all_pages_load :: "nat \<Rightarrow> nat \<Rightarrow> attempt" where
  "all_pages_load idx k = Response 200 ''https://example.com/uk/phones'' None"

text \<open>An exception that the handler of the retry loop catches, and an attempt in which
  nothing else is raised.\<close>

definition caught :: "raised \<Rightarrow> bool" where
  "caught r = (case r of Exc e \<Rightarrow> True | _ \<Rightarrow> False)"

definition calm :: "attempt \<Rightarrow> bool" where
  "calm a =
     (case a of
        NewPageRaises r \<Rightarrow> caught r
      | NavRaises r \<Rightarrow> caught r
      | NoResponse c \<Rightarrow> (case c of None \<Rightarrow> True | Some r \<Rightarrow> caught r)
      | Response st u c \<Rightarrow> (case c of None \<Rightarrow> True | Some r \<Rightarrow> caught r))"

section \<open>The retry loop\<close>

lemma loop_exhausted:
  "\<not> retries < max_retries \<Longrightarrow>
   validate_loop bh base env max_retries retries sc n = (None, n\<lparr>link_status := sc\<rparr>, [])"
  by (subst validate_loop.simps) simp

lemma loop_again:
  "retries < max_retries \<Longrightarrow> attempt_once bh base sc n (env retries) = Again sc' n' \<Longrightarrow>
   validate_loop bh base env max_retries retries sc n =
     (case validate_loop bh base env max_retries (Suc retries) sc' n' of
        (ex, m, seen) \<Rightarrow> (ex, m, n # seen))"
  by (subst validate_loop.simps) simp

lemma loop_done:
  "retries < max_retries \<Longrightarrow> attempt_once bh base sc n (env retries) = Done n' \<Longrightarrow>
   validate_loop bh base env max_retries retries sc n = (None, n', [n])"
  by (subst validate_loop.simps) simp

lemma loop_escaped:
  "retries < max_retries \<Longrightarrow> attempt_once bh base sc n (env retries) = Escaped e n' \<Longrightarrow>
   validate_loop bh base env max_retries retries sc n = (Some e, n', [n])"
  by (subst validate_loop.simps) simp

lemma failed_attempt:
  "failed_desc a = Some d \<Longrightarrow> refine_url bh (url n) base = Inr r \<Longrightarrow>
   attempt_once bh base sc n a = Again sc (n\<lparr>link_validate_desc := d\<rparr>)"
  by (induction a rule: failed_desc.induct)
     (auto simp: on_raise_def on_no_response_def)

text \<open>
  While the attempts fail, the loop only rewrites the description: from pass \<open>retries\<close>
  it reaches pass \<open>k\<close> with the description of attempt \<open>k - 1\<close>, and has seen
  \<open>k - retries\<close> node states, the first of them \<open>n\<close>.
\<close>

lemma retry_prefix:
  "refine_url bh (url n) base = Inr r \<Longrightarrow> retries \<le> k \<Longrightarrow> k \<le> max_retries \<Longrightarrow>
   (\<forall>j. retries \<le> j \<and> j < k \<longrightarrow> failed_desc (env j) \<noteq> None) \<Longrightarrow>
   \<exists>pre. length pre = k - retries \<and>
     validate_loop bh base env max_retries retries sc n =
       (case validate_loop bh base env max_retries k sc
               (n\<lparr>link_validate_desc :=
                    (if k = retries then link_validate_desc n
                     else the (failed_desc (env (k - 1))))\<rparr>) of
          (ex, m, seen) \<Rightarrow> (ex, m, pre @ seen))"
proof (induction "k - retries" arbitrary: retries n)
  case 0
  then have "k = retries" by simp
  then show ?case by (auto split: prod.splits)
next
  case (Suc d)
  then have lt: "retries < k" and lt': "retries < max_retries" by auto
  from Suc.prems(4) lt obtain d0 where d0: "failed_desc (env retries) = Some d0" by auto
  let ?n1 = "n\<lparr>link_validate_desc := d0\<rparr>"
  have step: "attempt_once bh base sc n (env retries) = Again sc ?n1"
    using failed_attempt [OF d0 Suc.prems(1)] .
  have u: "refine_url bh (url ?n1) base = Inr r" using Suc.prems(1) by simp
  have dd: "d = k - Suc retries" using Suc.hyps(2) by simp
  have le: "Suc retries \<le> k" using lt by simp
  have fa: "\<forall>j. Suc retries \<le> j \<and> j < k \<longrightarrow> failed_desc (env j) \<noteq> None"
    using Suc.prems(4) by auto
  from Suc.hyps(1) [OF dd u le Suc.prems(3) fa]
  obtain pre where pre: "length pre = k - Suc retries"
    and run: "validate_loop bh base env max_retries (Suc retries) sc ?n1 =
       (case validate_loop bh base env max_retries k sc
               (?n1\<lparr>link_validate_desc :=
                    (if k = Suc retries then link_validate_desc ?n1
                     else the (failed_desc (env (k - 1))))\<rparr>) of
          (ex, m, seen) \<Rightarrow> (ex, m, pre @ seen))"
    by blast
  have same: "?n1\<lparr>link_validate_desc :=
                    (if k = Suc retries then link_validate_desc ?n1
                     else the (failed_desc (env (k - 1))))\<rparr>
     = n\<lparr>link_validate_desc :=
                    (if k = retries then link_validate_desc n
                     else the (failed_desc (env (k - 1))))\<rparr>"
    using lt d0 by auto
  show ?case
  proof (rule exI [of _ "n # pre"], rule conjI)
    show "length (n # pre) = k - retries" using pre lt by simp
    show "validate_loop bh base env max_retries retries sc n =
       (case validate_loop bh base env max_retries k sc
               (n\<lparr>link_validate_desc :=
                    (if k = retries then link_validate_desc n
                     else the (failed_desc (env (k - 1))))\<rparr>) of
          (ex, m, seen) \<Rightarrow> (ex, m, (n # pre) @ seen))"
      by (simp add: loop_again [where env = env, OF lt' step] run same split: prod.splits)
  qed
qed

text \<open>
  The loop after \<open>k\<close> failed attempts, when attempt \<open>k\<close> ends the call with \<open>n'\<close>
  whatever the description of the node was.
\<close>

lemma retry_then_done:
  assumes ref: "refine_url bh (url n) base = Inr r"
    and k: "k < max_retries"
    and fails: "\<forall>j<k. failed_desc (env j) \<noteq> None"
    and fin: "\<And>d. attempt_once bh base sc (n\<lparr>link_validate_desc := d\<rparr>) (env k) = Done n'"
  shows "\<exists>seen. length seen = Suc k \<and>
           validate_loop bh base env max_retries 0 sc n = (None, n', seen)"
proof -
  let ?nk = "n\<lparr>link_validate_desc :=
                 (if k = 0 then link_validate_desc n else the (failed_desc (env (k - 1))))\<rparr>"
  from retry_prefix [OF ref, of 0 k max_retries env sc] k fails
  obtain pre where pre: "length pre = k"
    and run: "validate_loop bh base env max_retries 0 sc n =
       (case validate_loop bh base env max_retries k sc ?nk of
          (ex, m, seen) \<Rightarrow> (ex, m, pre @ seen))"
    by auto
  have "validate_loop bh base env max_retries k sc ?nk = (None, n', [?nk])"
    using loop_done [where env = env, OF k fin] .
  with run pre show ?thesis by simp
qed

lemma gnb_enters_loop:
  "url n \<noteq> '''' \<Longrightarrow>
   gnb_validate_node bh page_url env n =
     validate_loop bh (base_url_of bh page_url) env 5 0 (- 1) (reset_result n)"
  by (simp add: gnb_validate_node_def reset_result_def)

lemma shop_enters_loop:
  "url n \<noteq> '''' \<Longrightarrow>
   shop_validate_node bh page_url env n =
     validate_loop bh (base_url_of bh page_url) env 5 0 (- 1) (reset_result n)"
  by (simp add: shop_validate_node_def reset_result_def)

lemma url_reset_result [simp]: "url (reset_result n) = url n"
  by (simp add: reset_result_def)

lemma loop_all_fail:
  assumes ref: "refine_url bh (url n) base = Inr r"
    and fails: "\<forall>j<5. env j = NavRaises (Exc (msg j))"
  shows "\<exists>seen. length seen = 5 \<and>
           validate_loop bh base env 5 0 (- 1) n =
             (None, n\<lparr>link_validate_desc := ''Exception: '' @ msg 4, link_status := - 1\<rparr>, seen)"
proof -
  have f: "\<forall>j. 0 \<le> j \<and> j < 5 \<longrightarrow> failed_desc (env j) \<noteq> None"
    using fails by simp
  have e4: "failed_desc (env 4) = Some (''Exception: '' @ msg 4)"
    using fails by simp
  from retry_prefix [OF ref, of 0 5 5 env "- 1"] f
  obtain pre where pre: "length pre = 5"
    and run: "validate_loop bh base env 5 0 (- 1) n =
       (case validate_loop bh base env 5 5 (- 1)
               (n\<lparr>link_validate_desc := the (failed_desc (env 4))\<rparr>) of
          (ex, m, seen) \<Rightarrow> (ex, m, pre @ seen))"
    by auto
  show ?thesis
    using pre run e4 by (simp add: loop_exhausted)
qed

section \<open>Claims about the single link validator\<close>

text \<open>
  C5. A node with a link whose navigation raises an exception on each of the five
  attempts: both validators make exactly five attempts and leave
  \<open>link_validate = False\<close>, \<open>link_status = -1\<close> and a description that ends in the
  message of the fifth attempt.
\<close>

theorem always_failing_node_exhausts_five_attempts:
  assumes "url n \<noteq> ''''"
    and "refine_url bh (url n) (base_url_of bh page_url) = Inr r"
    and "\<forall>j<5. env j = NavRaises (Exc (msg j))"
  shows "attempts (gnb_validate_node bh page_url env n) = 5
       \<and> final_node (gnb_validate_node bh page_url env n) =
           (reset_result n)\<lparr>link_validate_desc := ''Exception: '' @ msg 4\<rparr>
       \<and> link_validate (final_node (gnb_validate_node bh page_url env n)) = False
       \<and> link_status (final_node (gnb_validate_node bh page_url env n)) = - 1
       \<and> link_validate_desc (final_node (gnb_validate_node bh page_url env n)) =
           ''Exception: '' @ msg 4
       \<and> shop_validate_node bh page_url env n = gnb_validate_node bh page_url env n"
proof -
  have ref: "refine_url bh (url (reset_result n)) (base_url_of bh page_url) = Inr r"
    using assms(2) by simp
  from loop_all_fail [OF ref assms(3)]
  obtain seen where "length seen = 5"
    and "validate_loop bh (base_url_of bh page_url) env 5 0 (- 1) (reset_result n) =
           (None, (reset_result n)\<lparr>link_validate_desc := ''Exception: '' @ msg 4,
                                    link_status := - 1\<rparr>, seen)"
    by blast
  then show ?thesis
    using assms(1)
    by (simp add: gnb_enters_loop shop_enters_loop attempts_def final_node_def reset_result_def)
qed

theorem always_failing_node_exhausts_five_attempts_witness:
  "url (new_node ''L1'' ''Shop'' ''/a'') \<noteq> ''''
   \<and> refine_url no_bracket_check (url (new_node ''L1'' ''Shop'' ''/a''))
         (base_url_of no_bracket_check ''https://example.com/uk/'') = Inr ''https://example.com/a''
   \<and> attempts (gnb_validate_node no_bracket_check ''https://example.com/uk/''
         (\<lambda>j. NavRaises (Exc ''Timeout 20000ms exceeded.'')) (new_node ''L1'' ''Shop'' ''/a'')) = 5
   \<and> link_validate_desc (final_node (gnb_validate_node no_bracket_check ''https://example.com/uk/''
         (\<lambda>j. NavRaises (Exc ''Timeout 20000ms exceeded.'')) (new_node ''L1'' ''Shop'' ''/a''))) =
       ''Exception: Timeout 20000ms exceeded.''"
proof -
  have h1: "url (new_node ''L1'' ''Shop'' ''/a'') \<noteq> ''''"
    by (simp add: new_node_def)
  have h2: "refine_url no_bracket_check (url (new_node ''L1'' ''Shop'' ''/a''))
         (base_url_of no_bracket_check ''https://example.com/uk/'') = Inr ''https://example.com/a''"
    by code_simp
  have h3: "\<forall>j<5. (\<lambda>j. NavRaises (Exc ''Timeout 20000ms exceeded.'')) j =
                  NavRaises (Exc ((\<lambda>j. ''Timeout 20000ms exceeded.'') j))"
    by simp
  show ?thesis
    using h1 h2 always_failing_node_exhausts_five_attempts [OF h1 h2 h3]
    by simp
qed





lemma status_200_attempt:
  "refine_url bh (url n) base = Inr r \<Longrightarrow> standardize_url bh r = Inr s1 \<Longrightarrow>
   standardize_url bh final = Inr s2 \<Longrightarrow>
   attempt_once bh base sc (n\<lparr>link_validate_desc := d\<rparr>) (Response 200 final None) =
     Done (n\<lparr>link_status := 200,
              link_validate_desc := (if s1 \<noteq> s2 then ''Redirected to '' @ final else ''''),
              link_validate := True\<rparr>)"
  by (simp add: on_response_def)

text \<open>
  A node with a link whose attempt \<open>k\<close> returns a response with status 200 and whose
  tab then closes, the earlier attempts having failed: the validator compares
  \<open>standardize_url\<close> of the refined link with \<open>standardize_url\<close> of the URL of the
  response. The node ends with \<open>link_validate = True\<close> and \<open>link_status = 200\<close>; its
  description is \<open>Redirected to\<close> followed by the URL of the response when the two
  differ, and empty when they are equal.
\<close>

lemma status_200_redirect_detection:
  assumes "url n \<noteq> ''''"
    and "refine_url bh (url n) (base_url_of bh page_url) = Inr r"
    and "standardize_url bh r = Inr s1"
    and "standardize_url bh final = Inr s2"
    and "k < 5"
    and "\<forall>j<k. failed_desc (env j) \<noteq> None"
    and "env k = Response 200 final None"
  shows "link_validate (final_node (gnb_validate_node bh page_url env n)) = True
       \<and> link_status (final_node (gnb_validate_node bh page_url env n)) = 200
       \<and> link_validate_desc (final_node (gnb_validate_node bh page_url env n)) =
           (if s1 \<noteq> s2 then ''Redirected to '' @ final else '''')
       \<and> attempts (gnb_validate_node bh page_url env n) = Suc k
       \<and> shop_validate_node bh page_url env n = gnb_validate_node bh page_url env n"
proof -
  have ref: "refine_url bh (url (reset_result n)) (base_url_of bh page_url) = Inr r"
    using assms(2) by simp
  let ?m = "(reset_result n)\<lparr>link_status := 200,
              link_validate_desc := (if s1 \<noteq> s2 then ''Redirected to '' @ final else ''''),
              link_validate := True\<rparr>"
  have fin: "\<And>d. attempt_once bh (base_url_of bh page_url) (- 1)
                 ((reset_result n)\<lparr>link_validate_desc := d\<rparr>) (env k) = Done ?m"
    using status_200_attempt [OF ref assms(3) assms(4)] assms(7) by simp
  from retry_then_done [OF ref assms(5) assms(6) fin]
  obtain seen where "length seen = Suc k"
    and "validate_loop bh (base_url_of bh page_url) env 5 0 (- 1) (reset_result n) =
           (None, ?m, seen)"
    by blast
  then show ?thesis
    using assms(1)
    by (simp add: gnb_enters_loop shop_enters_loop attempts_def final_node_def)
qed

lemma status_200_redirect_detection_example:
  "link_validate (final_node (gnb_validate_node no_bracket_check ''https://example.com/uk/''
       (\<lambda>j. if j = 0 then NoResponse None else Response 200 ''https://example.com/uk/store'' None)
       (new_node ''L1'' ''Shop'' ''/uk/shop/''))) = True
   \<and> link_status (final_node (gnb_validate_node no_bracket_check ''https://example.com/uk/''
       (\<lambda>j. if j = 0 then NoResponse None else Response 200 ''https://example.com/uk/store'' None)
       (new_node ''L1'' ''Shop'' ''/uk/shop/''))) = 200
   \<and> link_validate_desc (final_node (gnb_validate_node no_bracket_check ''https://example.com/uk/''
       (\<lambda>j. if j = 0 then NoResponse None else Response 200 ''https://example.com/uk/store'' None)
       (new_node ''L1'' ''Shop'' ''/uk/shop/''))) = ''Redirected to https://example.com/uk/store''
   \<and> attempts (gnb_validate_node no_bracket_check ''https://example.com/uk/''
       (\<lambda>j. if j = 0 then NoResponse None else Response 200 ''https://example.com/uk/store'' None)
       (new_node ''L1'' ''Shop'' ''/uk/shop/'')) = 2
   \<and> link_validate_desc (final_node (gnb_validate_node no_bracket_check ''https://example.com/uk/''
       (\<lambda>j. Response 200 ''https://example.com/uk/shop'' None)
       (new_node ''L1'' ''Shop'' ''/uk/shop/''))) = ''''"
proof -
  let ?n = "new_node ''L1'' ''Shop'' ''/uk/shop/''"
  let ?env = "\<lambda>j::nat. if j = 0 then NoResponse None
                        else Response 200 ''https://example.com/uk/store'' None"
  let ?env' = "\<lambda>j::nat. Response 200 ''https://example.com/uk/shop'' None"
  have h1: "url ?n \<noteq> ''''"
    by (simp add: new_node_def)
  have h2: "refine_url no_bracket_check (url ?n)
         (base_url_of no_bracket_check ''https://example.com/uk/'') = Inr ''https://example.com/uk/shop/''"
    by code_simp
  have h3: "standardize_url no_bracket_check ''https://example.com/uk/shop/'' =
              Inr ''https://example.com/uk/shop''"
    by code_simp
  have h4: "standardize_url no_bracket_check ''https://example.com/uk/store'' =
              Inr ''https://example.com/uk/store''"
    by code_simp
  have h4': "standardize_url no_bracket_check ''https://example.com/uk/shop'' =
              Inr ''https://example.com/uk/shop''"
    by code_simp
  have h5: "(1::nat) < 5" and h5': "(0::nat) < 5" by simp_all
  have h6: "\<forall>j<(1::nat). failed_desc (?env j) \<noteq> None" by simp
  have h6': "\<forall>j<(0::nat). failed_desc (?env' j) \<noteq> None" by simp
  have h7: "?env 1 = Response 200 ''https://example.com/uk/store'' None" by simp
  have h7': "?env' 0 = Response 200 ''https://example.com/uk/shop'' None" by simp
  show ?thesis
    using status_200_redirect_detection [OF h1 h2 h3 h4 h5 h6 h7]
      status_200_redirect_detection [OF h1 h2 h3 h4' h5' h6' h7']
    by simp
qed

text \<open>
  C6. The verdict on a response with status 200 is lost when closing the tab raises.
  \<^verbatim>\<open>new_page.close()\<close> is awaited inside the \<^verbatim>\<open>try\<close> block, after the node has been
  written, so its exception reaches the handler of the loop: the description is
  overwritten and the attempt is repeated. For the link \<^verbatim>\<open>/uk/shop/\<close> and the final URL
  \<^verbatim>\<open>https://example.com/uk/shop\<close>, which standardize to the same URL, a browser whose
  tabs fail to close leaves the node, after five attempts, with \<open>link_validate = True\<close>,
  \<open>link_status = 200\<close> and the description of the exception instead of the empty
  one.
\<close>

theorem status_200_verdict_overwritten_when_close_raises:
  "refine_url no_bracket_check ''/uk/shop/''
      (base_url_of no_bracket_check ''https://example.com/uk/'') =
     Inr ''https://example.com/uk/shop/''
   \<and> standardize_url no_bracket_check ''https://example.com/uk/shop/'' =
       standardize_url no_bracket_check ''https://example.com/uk/shop''
   \<and> attempts (gnb_validate_node no_bracket_check ''https://example.com/uk/''
         (\<lambda>j. Response 200 ''https://example.com/uk/shop'' (Some (Exc ''Target closed'')))
         (new_node ''L1'' ''Shop'' ''/uk/shop/'')) = 5
   \<and> link_validate (final_node (gnb_validate_node no_bracket_check ''https://example.com/uk/''
         (\<lambda>j. Response 200 ''https://example.com/uk/shop'' (Some (Exc ''Target closed'')))
         (new_node ''L1'' ''Shop'' ''/uk/shop/''))) = True
   \<and> link_status (final_node (gnb_validate_node no_bracket_check ''https://example.com/uk/''
         (\<lambda>j. Response 200 ''https://example.com/uk/shop'' (Some (Exc ''Target closed'')))
         (new_node ''L1'' ''Shop'' ''/uk/shop/''))) = 200
   \<and> link_validate_desc (final_node (gnb_validate_node no_bracket_check ''https://example.com/uk/''
         (\<lambda>j. Response 200 ''https://example.com/uk/shop'' (Some (Exc ''Target closed'')))
         (new_node ''L1'' ''Shop'' ''/uk/shop/''))) = ''Exception: Target closed''
   \<and> shop_validate_node no_bracket_check ''https://example.com/uk/''
         (\<lambda>j. Response 200 ''https://example.com/uk/shop'' (Some (Exc ''Target closed'')))
         (new_node ''L1'' ''Shop'' ''/uk/shop/'') =
       gnb_validate_node no_bracket_check ''https://example.com/uk/''
         (\<lambda>j. Response 200 ''https://example.com/uk/shop'' (Some (Exc ''Target closed'')))
         (new_node ''L1'' ''Shop'' ''/uk/shop/'')"
  by code_simp

text \<open>
  C3, as stated, fails: after a redirect the node has \<open>link_validate = True\<close> and a
  description that is not empty.
\<close>

theorem validated_with_description_counterexample:
  "\<not> (link_validate (final_node (gnb_validate_node no_bracket_check ''https://example.com/uk/''
          (\<lambda>j. Response 200 ''https://example.com/uk/store'' None)
          (new_node ''L1'' ''Shop'' ''/uk/shop/''))) \<longrightarrow>
        link_status (final_node (gnb_validate_node no_bracket_check ''https://example.com/uk/''
          (\<lambda>j. Response 200 ''https://example.com/uk/store'' None)
          (new_node ''L1'' ''Shop'' ''/uk/shop/''))) = 200
        \<and> link_validate_desc (final_node (gnb_validate_node no_bracket_check ''https://example.com/uk/''
          (\<lambda>j. Response 200 ''https://example.com/uk/store'' None)
          (new_node ''L1'' ''Shop'' ''/uk/shop/''))) = '''')"
  by code_simp

lemma attempt_again_unvalidated:
  "\<not> link_validate n \<Longrightarrow> attempt_once bh base sc n a = Again sc' n' \<Longrightarrow>
   (\<And>u e. a \<noteq> Response 200 u (Some (Exc e))) \<Longrightarrow> \<not> link_validate n'"
  by (cases a)
     (auto simp: on_raise_def on_no_response_def on_response_def Let_def
           split: sum.splits option.splits raised.splits if_splits)

lemma attempt_end_validated:
  "\<not> link_validate n \<Longrightarrow>
   attempt_once bh base sc n a = Done n' \<or> attempt_once bh base sc n a = Escaped e n' \<Longrightarrow>
   link_validate n' \<Longrightarrow>
   link_status n' = 200 \<and>
   (\<exists>u c. a = Response 200 u c \<and>
      (link_validate_desc n' = '''' \<or> link_validate_desc n' = ''Redirected to '' @ u))"
  by (cases a)
     (auto simp: on_raise_def on_no_response_def on_response_def Let_def
           split: sum.splits option.splits raised.splits if_splits)

lemma loop_validated:
  "\<not> link_validate n \<Longrightarrow>
   (\<And>k u e. k < max_retries \<Longrightarrow> env k \<noteq> Response 200 u (Some (Exc e))) \<Longrightarrow>
   validate_loop bh base env max_retries retries sc n = (ex, m, seen) \<Longrightarrow>
   link_validate m \<Longrightarrow>
   link_status m = 200 \<and>
   (\<exists>k u c. k < max_retries \<and> env k = Response 200 u c \<and>
      (link_validate_desc m = '''' \<or> link_validate_desc m = ''Redirected to '' @ u))"
proof (induction bh base env max_retries retries sc n arbitrary: ex m seen
       rule: validate_loop.induct)
  case (1 bh base env max_retries retries sc n)
  show ?case
  proof (cases "retries < max_retries")
    case False
    with "1.prems"(3) have "m = n\<lparr>link_status := sc\<rparr>" by (simp add: loop_exhausted)
    with "1.prems"(1,4) show ?thesis by simp
  next
    case True
    show ?thesis
    proof (cases "attempt_once bh base sc n (env retries)")
      case (Done n')
      with True "1.prems"(3) have "m = n'"
        by (simp add: loop_done [where env = env])
      with attempt_end_validated [where a = "env retries" and n' = n', OF "1.prems"(1)]
        Done "1.prems"(4) True
      show ?thesis by blast
    next
      case (Escaped e n')
      with True "1.prems"(3) have "m = n'"
        by (simp add: loop_escaped [where env = env])
      with attempt_end_validated [where a = "env retries" and n' = n', OF "1.prems"(1)]
        Escaped "1.prems"(4) True
      show ?thesis by blast
    next
      case (Again sc' n')
      have nv: "\<not> link_validate n'"
        using attempt_again_unvalidated [OF "1.prems"(1) Again] "1.prems"(2) [OF True] by blast
      obtain ex' m' seen' where
        rest: "validate_loop bh base env max_retries (Suc retries) sc' n' = (ex', m', seen')"
        by (cases "validate_loop bh base env max_retries (Suc retries) sc' n'") auto
      with True Again "1.prems"(3) have "m = m'"
        by (simp add: loop_again [where env = env])
      with "1.IH" [OF True Again nv "1.prems"(2) rest] "1.prems"(4)
      show ?thesis by blast
    qed
  qed
qed

text \<open>
  C3 (amended). After a validator call in which no tab that had loaded a page with
  status 200 failed to close, \<open>link_validate = True\<close> implies \<open>link_status = 200\<close>
  and a description that is empty or \<open>Redirected to\<close> followed by the URL of a
  response with status 200. In \<^verbatim>\<open>shop.py\<close> there is one more way to
  \<open>link_validate = True\<close>: an L0 node without a link, which gets \<open>link_status = -1\<close>
  and the description \<open>L0 has no link by design\<close>.
\<close>

theorem validated_node_status_and_description:
  assumes "\<forall>k<5. \<forall>u e. env k \<noteq> Response 200 u (Some (Exc e))"
  shows "(link_validate (final_node (gnb_validate_node bh page_url env n)) \<longrightarrow>
            link_status (final_node (gnb_validate_node bh page_url env n)) = 200
          \<and> (\<exists>k u c. k < 5 \<and> env k = Response 200 u c
                \<and> (link_validate_desc (final_node (gnb_validate_node bh page_url env n)) = ''''
                   \<or> link_validate_desc (final_node (gnb_validate_node bh page_url env n)) =
                        ''Redirected to '' @ u)))
       \<and> (link_validate (final_node (shop_validate_node bh page_url env n)) \<longrightarrow>
            (link_status (final_node (shop_validate_node bh page_url env n)) = 200
             \<and> (\<exists>k u c. k < 5 \<and> env k = Response 200 u c
                \<and> (link_validate_desc (final_node (shop_validate_node bh page_url env n)) = ''''
                   \<or> link_validate_desc (final_node (shop_validate_node bh page_url env n)) =
                        ''Redirected to '' @ u)))
          \<or> (node_type n = ''L0'' \<and> url n = ''''
             \<and> link_status (final_node (shop_validate_node bh page_url env n)) = - 1
             \<and> link_validate_desc (final_node (shop_validate_node bh page_url env n)) =
                  ''L0 has no link by design''))"
proof -
  have nv: "\<not> link_validate (reset_result n)" by (simp add: reset_result_def)
  have ok: "\<And>k u e. k < 5 \<Longrightarrow> env k \<noteq> Response 200 u (Some (Exc e))"
    using assms by blast
  have loop: "link_validate (final_node (validate_loop bh (base_url_of bh page_url) env 5 0 (- 1) (reset_result n))) \<Longrightarrow>
      link_status (final_node (validate_loop bh (base_url_of bh page_url) env 5 0 (- 1) (reset_result n))) = 200
      \<and> (\<exists>k u c. k < 5 \<and> env k = Response 200 u c
            \<and> (link_validate_desc (final_node (validate_loop bh (base_url_of bh page_url) env 5 0 (- 1) (reset_result n))) = ''''
               \<or> link_validate_desc (final_node (validate_loop bh (base_url_of bh page_url) env 5 0 (- 1) (reset_result n))) =
                    ''Redirected to '' @ u))"
  proof -
    assume lv: "link_validate (final_node (validate_loop bh (base_url_of bh page_url) env 5 0 (- 1) (reset_result n)))"
    obtain ex m seen where
      run: "validate_loop bh (base_url_of bh page_url) env 5 0 (- 1) (reset_result n) = (ex, m, seen)"
      by (cases "validate_loop bh (base_url_of bh page_url) env 5 0 (- 1) (reset_result n)") auto
    with lv have "link_validate m" by (simp add: final_node_def)
    from loop_validated [OF nv ok run this] run
    show ?thesis by (simp add: final_node_def)
  qed
  have gnb: "link_validate (final_node (gnb_validate_node bh page_url env n)) \<longrightarrow>
            link_status (final_node (gnb_validate_node bh page_url env n)) = 200
          \<and> (\<exists>k u c. k < 5 \<and> env k = Response 200 u c
                \<and> (link_validate_desc (final_node (gnb_validate_node bh page_url env n)) = ''''
                   \<or> link_validate_desc (final_node (gnb_validate_node bh page_url env n)) =
                        ''Redirected to '' @ u))"
  proof (cases "url n = ''''")
    case True
    then show ?thesis
      by (simp add: gnb_validate_node_def final_node_def reset_result_def Let_def)
  next
    case False
    then show ?thesis using loop by (simp add: gnb_enters_loop)
  qed
  have shop: "link_validate (final_node (shop_validate_node bh page_url env n)) \<longrightarrow>
            (link_status (final_node (shop_validate_node bh page_url env n)) = 200
             \<and> (\<exists>k u c. k < 5 \<and> env k = Response 200 u c
                \<and> (link_validate_desc (final_node (shop_validate_node bh page_url env n)) = ''''
                   \<or> link_validate_desc (final_node (shop_validate_node bh page_url env n)) =
                        ''Redirected to '' @ u)))
          \<or> (node_type n = ''L0'' \<and> url n = ''''
             \<and> link_status (final_node (shop_validate_node bh page_url env n)) = - 1
             \<and> link_validate_desc (final_node (shop_validate_node bh page_url env n)) =
                  ''L0 has no link by design'')"
  proof (cases "url n = ''''")
    case True
    then show ?thesis
      by (simp add: shop_validate_node_def final_node_def reset_result_def Let_def)
  next
    case False
    then show ?thesis using loop by (simp add: shop_enters_loop)
  qed
  from gnb shop show ?thesis by blast
qed

theorem validated_node_status_and_description_witness:
  "link_validate (final_node (gnb_validate_node no_bracket_check ''https://example.com/uk/''
       (\<lambda>j. Response 200 ''https://example.com/uk/store'' None)
       (new_node ''L1'' ''Shop'' ''/uk/shop/'')))
   \<and> link_status (final_node (gnb_validate_node no_bracket_check ''https://example.com/uk/''
       (\<lambda>j. Response 200 ''https://example.com/uk/store'' None)
       (new_node ''L1'' ''Shop'' ''/uk/shop/''))) = 200
   \<and> link_validate (final_node (shop_validate_node no_bracket_check ''https://example.com/uk/''
       (\<lambda>j. Response 200 ''https://example.com/uk/store'' None)
       (new_node ''L0'' ''Mobile'' '''')))
   \<and> link_status (final_node (shop_validate_node no_bracket_check ''https://example.com/uk/''
       (\<lambda>j. Response 200 ''https://example.com/uk/store'' None)
       (new_node ''L0'' ''Mobile'' ''''))) \<noteq> 200
   \<and> link_validate_desc (final_node (shop_validate_node no_bracket_check ''https://example.com/uk/''
       (\<lambda>j. Response 200 ''https://example.com/uk/store'' None)
       (new_node ''L0'' ''Mobile'' ''''))) = ''L0 has no link by design''"
proof -
  let ?env = "\<lambda>j::nat. Response 200 ''https://example.com/uk/store'' None"
  have h: "\<forall>k<5. \<forall>u e. ?env k \<noteq> Response 200 u (Some (Exc e))" by simp
  have g: "link_validate (final_node (gnb_validate_node no_bracket_check ''https://example.com/uk/''
       ?env (new_node ''L1'' ''Shop'' ''/uk/shop/'')))"
    by code_simp
  have s: "link_validate (final_node (shop_validate_node no_bracket_check ''https://example.com/uk/''
       ?env (new_node ''L0'' ''Mobile'' '''')))"
    by code_simp
  have s': "link_status (final_node (shop_validate_node no_bracket_check ''https://example.com/uk/''
       ?env (new_node ''L0'' ''Mobile'' ''''))) \<noteq> 200"
    by code_simp
  from validated_node_status_and_description [OF h, of no_bracket_check
      "''https://example.com/uk/''" "new_node ''L1'' ''Shop'' ''/uk/shop/''"] g
  have g': "link_status (final_node (gnb_validate_node no_bracket_check ''https://example.com/uk/''
       ?env (new_node ''L1'' ''Shop'' ''/uk/shop/''))) = 200"
    by blast
  from validated_node_status_and_description [OF h, of no_bracket_check
      "''https://example.com/uk/''" "new_node ''L0'' ''Mobile'' ''''"] s s'
  have "link_validate_desc (final_node (shop_validate_node no_bracket_check ''https://example.com/uk/''
       ?env (new_node ''L0'' ''Mobile'' ''''))) = ''L0 has no link by design''"
    by blast
  with g g' s s' show ?thesis by blast
qed

lemma loop_first_seen:
  "retries < max_retries \<Longrightarrow>
   take (Suc 0) (snd (snd (validate_loop bh base env max_retries retries sc n))) = [n]"
  by (subst validate_loop.simps) (simp split: step.splits prod.splits)

lemma reset_result_erases [simp]:
  "reset_result (n\<lparr>link_validate := a, link_status := b, link_validate_desc := c\<rparr>) =
   reset_result n"
  by (simp add: reset_result_def)

text \<open>
  C10. Both validators start from \<open>reset_result n\<close>, the node with
  \<open>link_validate = False\<close>, \<open>link_status = -1\<close> and an empty description: that is the
  node at the start of the first attempt, for every node with a link, and the result
  of the call does not depend on what the three fields held before.
\<close>

theorem validator_resets_result_fields:
  "take 1 (snd (snd (gnb_validate_node bh page_url env n))) =
     (if url n = '''' then [] else [reset_result n])
   \<and> take 1 (snd (snd (shop_validate_node bh page_url env n))) =
     (if url n = '''' then [] else [reset_result n])
   \<and> link_validate (reset_result n) = False
   \<and> link_status (reset_result n) = - 1
   \<and> link_validate_desc (reset_result n) = ''''
   \<and> gnb_validate_node bh page_url env
        (n\<lparr>link_validate := a, link_status := b, link_validate_desc := c\<rparr>) =
      gnb_validate_node bh page_url env n
   \<and> shop_validate_node bh page_url env
        (n\<lparr>link_validate := a, link_status := b, link_validate_desc := c\<rparr>) =
      shop_validate_node bh page_url env n"
proof -
  have g: "take 1 (snd (snd (gnb_validate_node bh page_url env n))) =
     (if url n = '''' then [] else [reset_result n])"
    by (cases "url n = ''''") (simp_all add: gnb_validate_node_def loop_first_seen Let_def)
  have s: "take 1 (snd (snd (shop_validate_node bh page_url env n))) =
     (if url n = '''' then [] else [reset_result n])"
    by (cases "url n = ''''") (simp_all add: shop_validate_node_def loop_first_seen Let_def)
  have f: "link_validate (reset_result n) = False \<and> link_status (reset_result n) = - 1
     \<and> link_validate_desc (reset_result n) = ''''"
    by (simp add: reset_result_def)
  have g': "gnb_validate_node bh page_url env
        (n\<lparr>link_validate := a, link_status := b, link_validate_desc := c\<rparr>) =
      gnb_validate_node bh page_url env n"
    by (simp add: gnb_validate_node_def Let_def)
  have s': "shop_validate_node bh page_url env
        (n\<lparr>link_validate := a, link_status := b, link_validate_desc := c\<rparr>) =
      shop_validate_node bh page_url env n"
    by (simp add: shop_validate_node_def Let_def)
  from g s f g' s' show ?thesis by blast
qed

text \<open>
  C8. \<^verbatim>\<open>standardize_url\<close> is not idempotent. On \<^verbatim>\<open>http://a.com/b/;/\<close> it strips the last
  slash and returns \<^verbatim>\<open>http://a.com/b/;\<close>; there \<^verbatim>\<open>urlparse\<close> takes the semicolon for the
  start of the parameters of the last segment, the path is \<^verbatim>\<open>/b/\<close>, and a second call
  returns \<^verbatim>\<open>http://a.com/b\<close>.
\<close>

theorem standardize_url_twice_differs:
  "standardize_url bh ''http://a.com/b/;/'' = Inr ''http://a.com/b/;''
   \<and> standardize_url bh ''http://a.com/b/;'' = Inr ''http://a.com/b''
   \<and> standardize_url bh ''http://a.com/b/;'' \<noteq> Inr ''http://a.com/b/;''"
  by code_simp

section \<open>Claims about the concurrency setting\<close>

text \<open>
  C7, as stated, fails: with \<^verbatim>\<open>LINKVALIDATE_COUNT=abc\<close> the call of \<^verbatim>\<open>int\<close> raises
  \<^verbatim>\<open>ValueError\<close> and no pool is started, in both variants.
\<close>

theorem non_numeric_concurrency_counterexample:
  "gnb_start (Some ''abc'') (\<lambda>r. new_node ''L0'' ''Mobile'' ''/uk/mobile/'') [Tree 0 []] =
     Inl ValueError
   \<and> shop_start (Some ''abc'') (\<lambda>r. new_node ''L0'' ''Mobile'' ''/uk/mobile/'') [Tree 0 []] =
     Inl ValueError
   \<and> \<not> (\<exists>p. gnb_start (Some ''abc'') (\<lambda>r. new_node ''L0'' ''Mobile'' ''/uk/mobile/'') [Tree 0 []] =
            Inr p \<and> length (workers p) = 2)"
proof -
  have "py_int ''abc'' = Inl ValueError" by code_simp
  then show ?thesis
    by (simp add: gnb_start_def shop_start_def max_concurrent_def)
qed

text \<open>
  C7 (amended). The concurrency level is read from the environment. When the variable
  is unset, two workers are started. When it holds an integer literal, as many workers
  as the integer says are started (none for a negative one). When it holds anything
  else, \<^verbatim>\<open>check_link_validity\<close> raises \<^verbatim>\<open>ValueError\<close> before a worker is started.
\<close>

theorem concurrency_from_environment:
  "(\<exists>p. gnb_start None h nodes = Inr p \<and> length (workers p) = 2)
   \<and> (\<exists>p. shop_start None h nodes = Inr p \<and> length (workers p) = 2)
   \<and> (py_int s = Inr k \<longrightarrow>
        (\<exists>p. gnb_start (Some s) h nodes = Inr p \<and> length (workers p) = nat k)
        \<and> (\<exists>p. shop_start (Some s) h nodes = Inr p \<and> length (workers p) = nat k))
   \<and> (py_int s = Inl e \<longrightarrow>
        gnb_start (Some s) h nodes = Inl e \<and> shop_start (Some s) h nodes = Inl e)"
  by (simp add: gnb_start_def shop_start_def max_concurrent_def init_pool_def)

theorem concurrency_from_environment_witness:
  "py_int ''3'' = Inr 3
   \<and> (\<exists>p. gnb_start (Some ''3'') (\<lambda>r. new_node ''L0'' ''Mobile'' ''/uk/mobile/'') [Tree 0 []] = Inr p
          \<and> length (workers p) = 3)
   \<and> py_int ''two'' = Inl ValueError
   \<and> shop_start (Some ''two'') (\<lambda>r. new_node ''L0'' ''Mobile'' ''/uk/mobile/'') [Tree 0 []] =
       Inl ValueError"
proof -
  have a: "py_int ''3'' = Inr 3" by code_simp
  have b: "py_int ''two'' = Inl ValueError" by code_simp
  show ?thesis
    using a b
      concurrency_from_environment [of "\<lambda>r. new_node ''L0'' ''Mobile'' ''/uk/mobile/''"
        "[Tree 0 []]" "''3''" 3 ValueError]
      concurrency_from_environment [of "\<lambda>r. new_node ''L0'' ''Mobile'' ''/uk/mobile/''"
        "[Tree 0 []]" "''two''" 3 ValueError]
    by simp
qed

section \<open>Claims about the queue and the pool\<close>

lemma map_fst_enqueue_all [simp]: "map fst (enqueue_all xs) = xs"
proof -
  have "map fst (enqueue_all xs) = map snd (zip [1 ..< Suc (length xs)] xs)"
    by (simp add: enqueue_all_def case_prod_unfold comp_def del: upt_Suc)
  also have "\<dots> = xs"
    by (rule map_snd_zip) (simp del: upt_Suc)
  finally show ?thesis .
qed

lemma running_ref_simps [simp]:
  "running_ref (Running it) = Some (fst it)"
  "running_ref Waiting = None"
  "running_ref (Dead e) = None"
  "running_ref (Interrupted e) = None"
  by (simp_all add: running_ref_def)

lemma is_interrupted_simps [simp]:
  "is_interrupted (Interrupted e) = True"
  "is_interrupted Waiting = False"
  "is_interrupted (Running it) = False"
  "is_interrupted (Dead e) = False"
  by (simp_all add: is_interrupted_def)

lemma gnb_flatten_has_link:
  "r \<in> set (gnb_flatten_with_link h t) \<Longrightarrow> url (h r) \<noteq> ''''"
  by (induction h t rule: gnb_flatten_with_link.induct) (auto split: if_splits)

lemma shop_flatten_has_link_or_level:
  "r \<in> set (shop_flatten_with_link h t) \<Longrightarrow>
   url (h r) \<noteq> '''' \<or> node_type (h r) = ''L0'' \<or> node_type (h r) = ''L1''"
  by (induction h t rule: shop_flatten_with_link.induct) (auto split: if_splits)

lemma frame_init: "frame_inv (set refs0) h (init_pool k h refs0)"
proof -
  have "set (map fst (enqueue_all refs0)) = set refs0" by (simp only: map_fst_enqueue_all)
  then have "fst ` set (enqueue_all refs0) = set refs0" by (simp only: set_map)
  then show ?thesis
    by (auto simp: frame_inv_def init_pool_def)
qed

lemma frame_step:
  assumes "pool_step v p p'" and "frame_inv S h0 p"
  shows "frame_inv S h0 p'"
  using assms
proof (cases rule: pool_step.cases)
  case (get i it q)
  have "set ((workers p)[i := Running it]) \<subseteq> insert (Running it) (set (workers p))"
    by (rule set_update_subset_insert)
  with get assms(2) show ?thesis
    by (auto simp: frame_inv_def)
next
  case (finish i it n')
  have sub: "set ((workers p)[i := Waiting]) \<subseteq> insert Waiting (set (workers p))"
    by (rule set_update_subset_insert)
  have "Running it \<in> set (workers p)"
    using finish(3,4) nth_mem by fastforce
  with assms(2) have "fst it \<in> S" by (auto simp: frame_inv_def)
  with finish sub assms(2) show ?thesis
    by (auto simp: frame_inv_def)
next
  case (crash i it r n')
  have sub: "set ((workers p)[i := Dead (message r)]) \<subseteq>
               insert (Dead (message r)) (set (workers p))"
    by (rule set_update_subset_insert)
  have "Running it \<in> set (workers p)"
    using crash(3,4) nth_mem by fastforce
  with assms(2) have "fst it \<in> S" by (auto simp: frame_inv_def)
  with crash sub assms(2) show ?thesis
    by (auto simp: frame_inv_def)
next
  case (interrupt i it r n')
  have sub: "set ((workers p)[i := Interrupted (message r)]) \<subseteq>
               insert (Interrupted (message r)) (set (workers p))"
    by (rule set_update_subset_insert)
  have "Running it \<in> set (workers p)"
    using interrupt(3,4) nth_mem by fastforce
  with assms(2) have "fst it \<in> S" by (auto simp: frame_inv_def)
  with interrupt sub assms(2) show ?thesis
    by (auto simp: frame_inv_def)
qed

lemma frame_run:
  "(pool_step v)\<^sup>*\<^sup>* p p' \<Longrightarrow> frame_inv S h0 p \<Longrightarrow> frame_inv S h0 p'"
  by (induction rule: rtranclp_induct) (auto intro: frame_step)

lemma frame_untouched:
  "frame_inv S h0 p \<Longrightarrow> r \<notin> S \<Longrightarrow> untouched h0 p r"
  by (auto simp: frame_inv_def untouched_def list_all_iff)

text \<open>
  C2, as stated, fails in \<^verbatim>\<open>shop.py\<close>: an L0 node with an empty url is placed on the
  queue, the validator runs on it and overwrites its result fields.
\<close>

theorem shop_level_node_without_link_counterexample:
  "url (example_heap 0) = ''''
   \<and> link_validate_desc (example_heap 0) = ''not applicable''
   \<and> (\<exists>p0 p. shop_start None example_heap [Tree 0 []] = Inr p0
         \<and> map fst (queue p0) = [0]
         \<and> (pool_step (shop_validator no_bracket_check ''https://example.com/uk/''
                (\<lambda>idx k. NoResponse None)))\<^sup>*\<^sup>* p0 p
         \<and> joined p
         \<and> validated p = [0]
         \<and> link_validate (store p 0) = True
         \<and> link_validate_desc (store p 0) = ''L0 has no link by design'')"
proof -
  let ?v = "shop_validator no_bracket_check ''https://example.com/uk/'' (\<lambda>idx k. NoResponse None)"
  let ?p0 = "\<lparr>queue = [(0, 1, 1)], unfinished = 1, workers = [Waiting, Waiting],
              store = example_heap, handed = [], validated = []\<rparr>"
  let ?p1 = "?p0\<lparr>queue := [], workers := (workers ?p0)[0 := Running (0, 1, 1)],
              handed := handed ?p0 @ [(0, fst (0::nat, 1::nat, 1::nat))]\<rparr>"
  let ?n' = "(reset_result (example_heap 0))\<lparr>link_validate := True, link_status := - 1,
               link_validate_desc := ''L0 has no link by design''\<rparr>"
  let ?p2 = "?p1\<lparr>unfinished := unfinished ?p1 - 1, workers := (workers ?p1)[0 := Waiting],
              store := (store ?p1)(fst (0::nat, 1::nat, 1::nat) := ?n'),
              validated := validated ?p1 @ [fst (0::nat, 1::nat, 1::nat)]\<rparr>"
  have start: "shop_start None example_heap [Tree 0 []] = Inr ?p0"
    by (simp add: shop_start_def max_concurrent_def init_pool_def enqueue_all_def
        example_heap_def new_node_def eval_nat_numeral)
  have s1: "pool_step ?v ?p0 ?p1"
    by (rule pool_step.get) (simp_all add: stopped_def)
  have val: "?v (0, 1, 1) (store ?p1 (fst (0::nat, 1::nat, 1::nat))) = (None, ?n')"
    by (simp add: shop_validator_def shop_validate_node_def example_heap_def new_node_def
        reset_result_def Let_def)
  have s2: "pool_step ?v ?p1 ?p2"
    by (rule pool_step.finish [where i = 0 and it = "(0, 1, 1)"])
       (use val in \<open>simp_all add: stopped_def\<close>)
  have run: "(pool_step ?v)\<^sup>*\<^sup>* ?p0 ?p2"
    using s1 s2 by (meson rtranclp.rtrancl_into_rtrancl rtranclp.rtrancl_refl)
  have f1: "joined ?p2" by (simp add: joined_def)
  have f2: "validated ?p2 = [0]" by simp
  have f3: "link_validate (store ?p2 0) = True" by simp
  have f4: "link_validate_desc (store ?p2 0) = ''L0 has no link by design''" by simp
  have pre: "url (example_heap 0) = '''' \<and> link_validate_desc (example_heap 0) = ''not applicable''"
    by (simp add: example_heap_def new_node_def)
  have q0: "map fst (queue ?p0) = [0]" by simp
  have "\<exists>p0 p. shop_start None example_heap [Tree 0 []] = Inr p0
         \<and> map fst (queue p0) = [0]
         \<and> (pool_step ?v)\<^sup>*\<^sup>* p0 p
         \<and> joined p
         \<and> validated p = [0]
         \<and> link_validate (store p 0) = True
         \<and> link_validate_desc (store p 0) = ''L0 has no link by design''"
  proof (rule exI, rule exI, intro conjI)
    show "shop_start None example_heap [Tree 0 []] = Inr ?p0" by (rule start)
    show "map fst (queue ?p0) = [0]" by (rule q0)
    show "(pool_step ?v)\<^sup>*\<^sup>* ?p0 ?p2" by (rule run)
    show "joined ?p2" by (rule f1)
    show "validated ?p2 = [0]" by (rule f2)
    show "link_validate (store ?p2 0) = True" by (rule f3)
    show "link_validate_desc (store ?p2 0) = ''L0 has no link by design''" by (rule f4)
  qed
  with pre show ?thesis by blast
qed

text \<open>
  C2 (amended). In \<^verbatim>\<open>gnb.py\<close> a node whose url is the empty string is never placed on
  the queue, never handed to a worker and never validated, and it is in the store as
  the caller left it, at every point of a run and for every validator. In \<^verbatim>\<open>shop.py\<close>
  the same holds for a node whose url is the empty string and whose type is neither
  L0 nor L1.
\<close>

theorem node_without_link_untouched:
  assumes "(pool_step v)\<^sup>*\<^sup>* p0 p" and "url (h r) = ''''"
  shows "(gnb_start getenv h nodes = Inr p0 \<longrightarrow> untouched h p r)
       \<and> (shop_start getenv h nodes = Inr p0 \<and> node_type (h r) \<noteq> ''L0''
            \<and> node_type (h r) \<noteq> ''L1'' \<longrightarrow> untouched h p r)"
proof (intro conjI impI)
  assume "gnb_start getenv h nodes = Inr p0"
  then obtain k where p0: "p0 = init_pool k h (concat (map (gnb_flatten_with_link h) nodes))"
    by (auto simp: gnb_start_def split: sum.splits)
  have "r \<notin> set (concat (map (gnb_flatten_with_link h) nodes))"
    using assms(2) gnb_flatten_has_link by fastforce
  moreover have "frame_inv (set (concat (map (gnb_flatten_with_link h) nodes))) h p"
    using frame_run [OF assms(1)] frame_init p0 by blast
  ultimately show "untouched h p r" by (rule frame_untouched [rotated])
next
  assume a: "shop_start getenv h nodes = Inr p0 \<and> node_type (h r) \<noteq> ''L0''
            \<and> node_type (h r) \<noteq> ''L1''"
  then obtain k where p0: "p0 = init_pool k h (concat (map (shop_flatten_with_link h) nodes))"
    by (auto simp: shop_start_def split: sum.splits)
  have "r \<notin> set (concat (map (shop_flatten_with_link h) nodes))"
    using assms(2) a shop_flatten_has_link_or_level by fastforce
  moreover have "frame_inv (set (concat (map (shop_flatten_with_link h) nodes))) h p"
    using frame_run [OF assms(1)] frame_init p0 by blast
  ultimately show "untouched h p r" by (rule frame_untouched [rotated])
qed

theorem node_without_link_untouched_witness:
  "url (example_heap 0) = ''''
   \<and> gnb_start None example_heap example_menu =
       Inr \<lparr>queue = [(1, 1, 1)], unfinished = 1, workers = [Waiting, Waiting],
            store = example_heap, handed = [], validated = []\<rparr>
   \<and> untouched example_heap
        \<lparr>queue = [], unfinished = 1, workers = [Running (1, 1, 1), Waiting],
         store = example_heap, handed = [(0, 1)], validated = []\<rparr> 0"
proof -
  let ?v = "gnb_validator no_bracket_check ''https://example.com/uk/'' (\<lambda>idx k. NoResponse None)"
  let ?p0 = "\<lparr>queue = [(1, 1, 1)], unfinished = 1, workers = [Waiting, Waiting],
              store = example_heap, handed = [], validated = []\<rparr>"
  let ?p1 = "\<lparr>queue = [], unfinished = 1, workers = [Running (1, 1, 1), Waiting],
              store = example_heap, handed = [(0, 1)], validated = []\<rparr>"
  have u: "url (example_heap 0) = ''''"
    by (simp add: example_heap_def new_node_def)
  have start: "gnb_start None example_heap example_menu = Inr ?p0"
    by (simp add: gnb_start_def max_concurrent_def init_pool_def enqueue_all_def
        example_heap_def example_menu_def new_node_def eval_nat_numeral)
  have "pool_step ?v ?p0
          (?p0\<lparr>queue := [], workers := (workers ?p0)[0 := Running (1, 1, 1)],
                handed := handed ?p0 @ [(0, fst (1::nat, 1::nat, 1::nat))]\<rparr>)"
    by (rule pool_step.get) (simp_all add: stopped_def)
  then have "pool_step ?v ?p0 ?p1" by simp
  then have run: "(pool_step ?v)\<^sup>*\<^sup>* ?p0 ?p1" by (rule r_into_rtranclp)
  from node_without_link_untouched [where h = example_heap and r = 0 and getenv = None
      and nodes = example_menu, OF run u] start
  have "untouched example_heap ?p1 0" by blast
  with u start show ?thesis by blast
qed

text \<open>
  Both variants test the url for truthiness and do not trim it: a url of white space
  only counts as a link, and the node is placed on the queue.
\<close>

lemma blank_url_is_enqueued:
  "gnb_flatten_with_link (\<lambda>r. new_node ''L1'' ''Blank'' '' '') (Tree 0 []) = [0]
   \<and> shop_flatten_with_link (\<lambda>r. new_node ''Featured'' ''Blank'' '' '') (Tree 0 []) = [0]"
  by (simp add: new_node_def)

lemma running_refs_Nil [simp]: "running_refs [] = []"
  by (simp add: running_refs_def)

lemma running_refs_Cons [simp]:
  "running_refs (w # ws) =
     (case running_ref w of None \<Rightarrow> running_refs ws | Some r \<Rightarrow> r # running_refs ws)"
  by (simp add: running_refs_def split: option.splits)

lemma running_refs_replicate_Waiting [simp]: "running_refs (replicate k Waiting) = []"
  by (induction k) simp_all

lemma running_refs_take_work:
  "i < length ws \<Longrightarrow> running_ref (ws ! i) = None \<Longrightarrow>
   mset (running_refs (ws[i := Running it])) = add_mset (fst it) (mset (running_refs ws))"
proof (induction ws arbitrary: i)
  case Nil
  then show ?case by simp
next
  case (Cons w ws)
  then show ?case by (cases i) (auto split: option.splits)
qed

lemma running_refs_end_work:
  "i < length ws \<Longrightarrow> ws ! i = Running it \<Longrightarrow> running_ref w' = None \<Longrightarrow>
   add_mset (fst it) (mset (running_refs (ws[i := w']))) = mset (running_refs ws)"
proof (induction ws arbitrary: i)
  case Nil
  then show ?case by simp
next
  case (Cons w ws)
  then show ?case by (cases i) (auto split: option.splits)
qed

lemma running_ref_mem:
  "i < length ws \<Longrightarrow> running_ref (ws ! i) = Some r \<Longrightarrow> r \<in> set (running_refs ws)"
proof (induction ws arbitrary: i)
  case Nil
  then show ?case by simp
next
  case (Cons w ws)
  then show ?case by (cases i) (auto split: option.splits)
qed

lemma distinct_running_refs_inj:
  "distinct (running_refs ws) \<Longrightarrow> i < length ws \<Longrightarrow> j < length ws \<Longrightarrow>
   running_ref (ws ! i) = Some r \<Longrightarrow> running_ref (ws ! j) = Some r \<Longrightarrow> i = j"
proof (induction ws arbitrary: i j)
  case Nil
  then show ?case by simp
next
  case (Cons w ws)
  show ?case
  proof (cases i)
    case 0
    note i0 = this
    show ?thesis
    proof (cases j)
      case 0
      with i0 show ?thesis by simp
    next
      case (Suc j')
      with Cons.prems i0 have "r \<in> set (running_refs ws)"
        using running_ref_mem [of j' ws r] by simp
      with Cons.prems i0 show ?thesis by simp
    qed
  next
    case (Suc i')
    note iS = this
    show ?thesis
    proof (cases j)
      case 0
      with Cons.prems iS have "r \<in> set (running_refs ws)"
        using running_ref_mem [of i' ws r] by simp
      with Cons.prems 0 show ?thesis by simp
    next
      case (Suc j')
      have "distinct (running_refs ws)"
        using Cons.prems(1) by (simp split: option.splits)
      with Cons.IH [of i' j'] Cons.prems iS Suc show ?thesis by simp
    qed
  qed
qed

lemma length_enqueue_all [simp]: "length (enqueue_all xs) = length xs"
  by (simp add: enqueue_all_def del: upt_Suc)

lemma once_init: "once_inv refs0 (init_pool k h refs0)"
  by (simp add: once_inv_def init_pool_def)

lemma once_step:
  assumes "pool_step v p p'" and "once_inv refs0 p"
  shows "once_inv refs0 p' \<and> work_left p = Suc (work_left p')"
  using assms
proof (cases rule: pool_step.cases)
  case (get i it q)
  have m: "mset (running_refs ((workers p)[i := Running it])) =
             add_mset (fst it) (mset (running_refs (workers p)))"
    using get by (intro running_refs_take_work) simp_all
  have l: "length (running_refs ((workers p)[i := Running it])) =
             Suc (length (running_refs (workers p)))"
    using arg_cong [OF m, of size] by simp
  from get assms(2) m l show ?thesis
    by (simp add: once_inv_def work_left_def)
next
  case (finish i it n')
  have m: "add_mset (fst it) (mset (running_refs ((workers p)[i := Waiting]))) =
             mset (running_refs (workers p))"
    using finish by (intro running_refs_end_work) simp_all
  have l: "Suc (length (running_refs ((workers p)[i := Waiting]))) =
             length (running_refs (workers p))"
    using arg_cong [OF m, of size] by simp
  from finish assms(2) m [symmetric] l [symmetric] show ?thesis
    by (simp add: once_inv_def work_left_def)
next
  case (crash i it r n')
  have m: "add_mset (fst it) (mset (running_refs ((workers p)[i := Dead (message r)]))) =
             mset (running_refs (workers p))"
    using crash by (intro running_refs_end_work) simp_all
  have l: "Suc (length (running_refs ((workers p)[i := Dead (message r)]))) =
             length (running_refs (workers p))"
    using arg_cong [OF m, of size] by simp
  from crash assms(2) m [symmetric] l [symmetric] show ?thesis
    by (simp add: once_inv_def work_left_def)
next
  case (interrupt i it r n')
  have m: "add_mset (fst it) (mset (running_refs ((workers p)[i := Interrupted (message r)]))) =
             mset (running_refs (workers p))"
    using interrupt by (intro running_refs_end_work) simp_all
  have l: "Suc (length (running_refs ((workers p)[i := Interrupted (message r)]))) =
             length (running_refs (workers p))"
    using arg_cong [OF m, of size] by simp
  from interrupt assms(2) m [symmetric] l [symmetric] show ?thesis
    by (simp add: once_inv_def work_left_def)
qed

lemma once_run:
  "(pool_step v)\<^sup>*\<^sup>* p p' \<Longrightarrow> once_inv refs0 p \<Longrightarrow> once_inv refs0 p'"
  by (induction rule: rtranclp_induct) (auto dest: once_step)

lemma once_distinct:
  assumes "once_inv refs0 p" and "distinct refs0"
  shows "distinct (validated p @ running_refs (workers p) @ map fst (queue p))"
proof -
  have "mset (validated p @ running_refs (workers p) @ map fst (queue p)) = mset refs0"
    using assms(1) unfolding once_inv_def by (simp add: ac_simps)
  then show ?thesis
    using assms(2) mset_eq_imp_distinct_iff by blast
qed

lemma start_is_init:
  assumes "gnb_start getenv h nodes = Inr p0 \<or> shop_start getenv h nodes = Inr p0"
  shows "\<exists>k refs0. p0 = init_pool k h refs0"
  using assms by (auto simp: gnb_start_def shop_start_def split: sum.splits)

lemma work_left_init [simp]: "work_left (init_pool k h refs0) = 2 * length refs0"
  by (simp add: work_left_def init_pool_def)

lemma work_left_steps:
  "(pool_step v ^^ n) p p' \<Longrightarrow> once_inv refs0 p \<Longrightarrow>
   work_left p = n + work_left p' \<and> once_inv refs0 p'"
proof (induction n arbitrary: p')
  case 0
  then show ?case by simp
next
  case (Suc n)
  from Suc.prems(1) obtain y where y: "(pool_step v ^^ n) p y" and s: "pool_step v y p'"
    by (auto elim: relpowp_Suc_E)
  from Suc.IH [OF y Suc.prems(2)]
  have a: "work_left p = n + work_left y" and b: "once_inv refs0 y" by simp_all
  from once_step [OF s b] a show ?case by simp
qed

lemma set_pending_items:
  "set (pending_items p) = set (queue p) \<union> {it. Running it \<in> set (workers p)}"
  by (auto simp: pending_items_def split: worker.splits)

lemma quiet_on_subset:
  "quiet_on v xs \<Longrightarrow> set ys \<subseteq> set xs \<Longrightarrow> quiet_on v ys"
  by (auto simp: quiet_on_def list_all_iff)

lemma quiet_on_returns:
  "quiet_on v xs \<Longrightarrow> it \<in> set xs \<Longrightarrow> \<exists>n'. v it n = (None, n')"
proof -
  assume "quiet_on v xs" and "it \<in> set xs"
  then have "fst (v it n) = None" by (auto simp: quiet_on_def list_all_iff)
  then show ?thesis by (cases "v it n") auto
qed

lemma is_alive_simps [simp]:
  "is_alive Waiting = True"
  "is_alive (Running it) = True"
  "is_alive (Dead e) = False"
  "is_alive (Interrupted e) = False"
  by (simp_all add: is_alive_def)

lemma quiet_step:
  assumes "pool_step v p p'" and "quiet_on v (pending_items p)"
  shows "quiet_on v (pending_items p') \<and> list_ex is_alive (workers p') \<and> \<not> stopped p'"
  using assms(1)
proof (cases rule: pool_step.cases)
  case (get i it q)
  have sub: "set ((workers p)[i := Running it]) \<subseteq> insert (Running it) (set (workers p))"
    by (rule set_update_subset_insert)
  have mem: "Running it \<in> set ((workers p)[i := Running it])"
    using get(3) by (rule set_update_memI)
  have "set (pending_items p') \<subseteq> set (pending_items p)"
    using get sub by (auto simp: set_pending_items)
  with assms(2) have q: "quiet_on v (pending_items p')" by (rule quiet_on_subset)
  have "\<exists>x\<in>set ((workers p)[i := Running it]). is_alive x"
    using mem by (intro bexI [of _ "Running it"]) simp_all
  with get(1) have a: "list_ex is_alive (workers p')"
    by (simp add: list_ex_iff)
  have "\<not> stopped p'"
    using get sub by (auto simp: stopped_def list_ex_iff)
  with q a show ?thesis by simp
next
  case (finish i it n')
  have sub: "set ((workers p)[i := Waiting]) \<subseteq> insert Waiting (set (workers p))"
    by (rule set_update_subset_insert)
  have mem: "Waiting \<in> set ((workers p)[i := Waiting])"
    using finish(3) by (rule set_update_memI)
  have "set (pending_items p') \<subseteq> set (pending_items p)"
    using finish sub by (auto simp: set_pending_items)
  with assms(2) have q: "quiet_on v (pending_items p')" by (rule quiet_on_subset)
  have "\<exists>x\<in>set ((workers p)[i := Waiting]). is_alive x"
    using mem by (intro bexI [of _ Waiting]) simp_all
  with finish(1) have a: "list_ex is_alive (workers p')"
    by (simp add: list_ex_iff)
  have "\<not> stopped p'"
    using finish sub by (auto simp: stopped_def list_ex_iff)
  with q a show ?thesis by simp
next
  case (crash i it r n')
  have "it \<in> set (pending_items p)"
    using crash(3,4) nth_mem by (fastforce simp: set_pending_items)
  from quiet_on_returns [OF assms(2) this, of "store p (fst it)"] crash(5)
  show ?thesis by simp
next
  case (interrupt i it r n')
  have "it \<in> set (pending_items p)"
    using interrupt(3,4) nth_mem by (fastforce simp: set_pending_items)
  from quiet_on_returns [OF assms(2) this, of "store p (fst it)"] interrupt(5)
  show ?thesis by simp
qed

lemma quiet_run:
  "(pool_step v)\<^sup>*\<^sup>* p p' \<Longrightarrow> quiet_on v (pending_items p) \<Longrightarrow>
   list_ex is_alive (workers p) \<Longrightarrow> \<not> stopped p \<Longrightarrow>
   quiet_on v (pending_items p') \<and> list_ex is_alive (workers p') \<and> \<not> stopped p'"
  by (induction rule: rtranclp_induct) (auto dest: quiet_step)

lemma running_refs_nonempty:
  "running_refs ws \<noteq> [] \<Longrightarrow> \<exists>i<length ws. \<exists>it. ws ! i = Running it"
proof (induction ws)
  case Nil
  then show ?case by simp
next
  case (Cons w ws)
  show ?case
  proof (cases w)
    case (Running it)
    then have "(w # ws) ! 0 = Running it" by simp
    then show ?thesis by blast
  next
    case Waiting
    with Cons obtain i it where "i < length ws" and "ws ! i = Running it" by auto
    then have "Suc i < length (w # ws) \<and> (w # ws) ! Suc i = Running it" by simp
    then show ?thesis by blast
  next
    case (Dead e)
    with Cons obtain i it where "i < length ws" and "ws ! i = Running it" by auto
    then have "Suc i < length (w # ws) \<and> (w # ws) ! Suc i = Running it" by simp
    then show ?thesis by blast
  next
    case (Interrupted e)
    with Cons obtain i it where "i < length ws" and "ws ! i = Running it" by auto
    then have "Suc i < length (w # ws) \<and> (w # ws) ! Suc i = Running it" by simp
    then show ?thesis by blast
  qed
qed

lemma running_refs_empty:
  "running_refs ws = [] \<Longrightarrow> Running it \<notin> set ws"
  by (induction ws) (auto split: option.splits)

lemma progress:
  assumes inv: "once_inv refs0 p" and ns: "\<not> stopped p"
    and alive: "list_ex is_alive (workers p)"
    and quiet: "quiet_on v (pending_items p)" and nj: "\<not> joined p"
  shows "\<exists>p'. pool_step v p p'"
proof (cases "running_refs (workers p) = []")
  case False
  from running_refs_nonempty [OF this]
  obtain i it where i: "i < length (workers p)" and r: "workers p ! i = Running it" by blast
  then have "it \<in> set (pending_items p)"
    using nth_mem by (fastforce simp: set_pending_items)
  from quiet_on_returns [OF quiet this, of "store p (fst it)"]
  obtain n' where "v it (store p (fst it)) = (None, n')" by blast
  from pool_step.finish [where v = v, OF ns i r this] show ?thesis by blast
next
  case True
  with inv nj obtain it q where q: "queue p = it # q"
    by (cases "queue p") (auto simp: once_inv_def joined_def)
  from alive obtain w where w: "w \<in> set (workers p)" and "is_alive w"
    by (auto simp: list_ex_iff)
  with running_refs_empty [OF True] have "w = Waiting"
    by (cases w) auto
  with w obtain i where "i < length (workers p)" and "workers p ! i = Waiting"
    by (auto simp: in_set_conv_nth)
  from pool_step.get [where v = v, OF ns this q] show ?thesis by blast
qed


lemma on_raise_caught:
  "caught r \<Longrightarrow> on_raise r sc n \<noteq> Escaped r' n'"
  by (cases r) (simp_all add: caught_def on_raise_def)

lemma attempt_calm:
  "calm a \<Longrightarrow> attempt_once bh base sc n a \<noteq> Escaped r n'"
  by (cases a)
     (auto simp: calm_def caught_def on_raise_def on_no_response_def on_response_def Let_def
           split: sum.splits option.splits raised.splits if_splits)

lemma loop_calm:
  "(\<And>k. calm (env k)) \<Longrightarrow>
   fst (validate_loop bh base env max_retries retries sc n) = None"
proof (induction bh base env max_retries retries sc n rule: validate_loop.induct)
  case (1 bh base env max_retries retries sc n)
  show ?case
  proof (cases "retries < max_retries")
    case False
    then show ?thesis by (simp add: loop_exhausted)
  next
    case True
    show ?thesis
    proof (cases "attempt_once bh base sc n (env retries)")
      case (Done n')
      with True show ?thesis by (simp add: loop_done [where env = env])
    next
      case (Escaped r n')
      moreover have "calm (env retries)" by (rule "1.prems")
      ultimately show ?thesis using attempt_calm by blast
    next
      case (Again sc' n')
      obtain ex m seen where
        rest: "validate_loop bh base env max_retries (Suc retries) sc' n' = (ex, m, seen)"
        by (cases "validate_loop bh base env max_retries (Suc retries) sc' n'") auto
      from "1.IH" [OF True Again "1.prems"] rest have "ex = None" by simp
      with True Again rest show ?thesis
        by (simp add: loop_again [where env = env])
    qed
  qed
qed

lemma validators_calm:
  assumes "\<And>k. calm (env (fst (snd it)) k)"
  shows "fst (gnb_validator bh page_url env it n) = None"
    and "fst (shop_validator bh page_url env it n) = None"
proof -
  have l: "fst (validate_loop bh (base_url_of bh page_url) (env (fst (snd it))) 5 0 (- 1)
                 (reset_result n)) = None"
    using assms by (intro loop_calm) simp
  obtain ex m seen where
    run: "validate_loop bh (base_url_of bh page_url) (env (fst (snd it))) 5 0 (- 1)
            (reset_result n) = (ex, m, seen)"
    by (cases "validate_loop bh (base_url_of bh page_url) (env (fst (snd it))) 5 0 (- 1)
                 (reset_result n)") auto
  with l have "ex = None" by simp
  with run show "fst (gnb_validator bh page_url env it n) = None"
    by (simp add: gnb_validator_def gnb_validate_node_def Let_def)
  from \<open>ex = None\<close> run show "fst (shop_validator bh page_url env it n) = None"
    by (simp add: shop_validator_def shop_validate_node_def Let_def)
qed

lemma init_not_stopped [simp]: "\<not> stopped (init_pool k h refs0)"
  by (simp add: stopped_def init_pool_def list_ex_iff)

lemma init_alive: "1 \<le> k \<Longrightarrow> list_ex is_alive (workers (init_pool k h refs0))"
  by (cases k) (simp_all add: init_pool_def)

lemma pending_init [simp]: "pending_items (init_pool k h refs0) = enqueue_all refs0"
  by (induction k) (simp_all add: pending_items_def init_pool_def)

lemma no_alive_no_step:
  assumes "\<not> list_ex is_alive (workers p)" and "pool_step v p p'"
  shows False
  using assms(2)
proof (cases rule: pool_step.cases)
  case (get i it q)
  then have "Waiting \<in> set (workers p)" using nth_mem by fastforce
  with assms(1) show ?thesis by (auto simp: list_ex_iff)
next
  case (finish i it n')
  then have "Running it \<in> set (workers p)" using nth_mem by fastforce
  with assms(1) show ?thesis by (auto simp: list_ex_iff)
next
  case (crash i it r n')
  then have "Running it \<in> set (workers p)" using nth_mem by fastforce
  with assms(1) show ?thesis by (auto simp: list_ex_iff)
next
  case (interrupt i it r n')
  then have "Running it \<in> set (workers p)" using nth_mem by fastforce
  with assms(1) show ?thesis by (auto simp: list_ex_iff)
qed


lemma first_item_raises:
  "gnb_validator no_bracket_check ''https://example.com/uk/'' first_item_cancelled
     (1, 1, 2) (example_heap 1) = (Some (BaseExc ''CancelledError''), example_heap 1)"
  by code_simp

lemma example_links_start:
  "gnb_start (Some ''1'') example_heap example_links =
     Inr \<lparr>queue = [(1, 1, 2), (2, 2, 2)], unfinished = 2, workers = [Waiting],
          store = example_heap, handed = [], validated = []\<rparr>"
proof -
  have "py_int ''1'' = Inr 1" by code_simp
  then show ?thesis
    by (simp add: gnb_start_def max_concurrent_def init_pool_def enqueue_all_def
        example_heap_def example_links_def new_node_def eval_nat_numeral)
qed

lemma example_links_reachable:
  assumes "(pool_step (gnb_validator no_bracket_check ''https://example.com/uk/''
                first_item_cancelled))\<^sup>*\<^sup>*
             \<lparr>queue = [(1, 1, 2), (2, 2, 2)], unfinished = 2, workers = [Waiting],
              store = example_heap, handed = [], validated = []\<rparr> p"
  shows "p = \<lparr>queue = [(1, 1, 2), (2, 2, 2)], unfinished = 2, workers = [Waiting],
              store = example_heap, handed = [], validated = []\<rparr>
       \<or> p = \<lparr>queue = [(2, 2, 2)], unfinished = 2, workers = [Running (1, 1, 2)],
              store = example_heap, handed = [(0, 1)], validated = []\<rparr>
       \<or> p = \<lparr>queue = [(2, 2, 2)], unfinished = 1, workers = [Dead ''CancelledError''],
              store = example_heap, handed = [(0, 1)], validated = [1]\<rparr>"
  using assms
proof (induction rule: rtranclp_induct)
  case base
  then show ?case by simp
next
  case (step y z)
  let ?v = "gnb_validator no_bracket_check ''https://example.com/uk/'' first_item_cancelled"
  let ?p0 = "\<lparr>queue = [(1, 1, 2), (2, 2, 2)], unfinished = 2, workers = [Waiting],
              store = example_heap, handed = [], validated = []\<rparr>"
  let ?p1 = "\<lparr>queue = [(2, 2, 2)], unfinished = 2, workers = [Running (1, 1, 2)],
              store = example_heap, handed = [(0, 1)], validated = []\<rparr>"
  let ?p2 = "\<lparr>queue = [(2, 2, 2)], unfinished = 1, workers = [Dead ''CancelledError''],
              store = example_heap, handed = [(0, 1)], validated = [1]\<rparr>"
  from step.IH consider "y = ?p0" | "y = ?p1" | "y = ?p2" by blast
  then show ?case
  proof cases
    case 1
    from step.hyps(2) have "z = ?p1"
      by (cases rule: pool_step.cases) (auto simp: 1)
    then show ?thesis by simp
  next
    case 2
    have fr: "?v (Suc 0, Suc 0, 2) (example_heap (Suc 0)) =
                (Some (BaseExc ''CancelledError''), example_heap (Suc 0))"
      using first_item_raises by simp
    from step.hyps(2) have "z = ?p2"
      by (cases rule: pool_step.cases) (auto simp: 2 fr is_interrupt_def message_def)
    then show ?thesis by simp
  next
    case 3
    then have "\<not> list_ex is_alive (workers y)" by simp
    with step.hyps(2) no_alive_no_step show ?thesis by blast
  qed
qed

text \<open>
  C9, as stated, fails: with one worker and two nodes, when the validator call on the
  first node raises, the worker ends and the run is stuck with the second node in the
  queue; that node is never handed out and never validated.
\<close>

theorem enqueued_node_never_handed_out_counterexample:
  "\<exists>p0. gnb_start (Some ''1'') example_heap example_links = Inr p0
     \<and> map fst (queue p0) = [1, 2]
     \<and> length (workers p0) = 1
     \<and> (\<exists>p. (pool_step (gnb_validator no_bracket_check ''https://example.com/uk/''
                  first_item_cancelled))\<^sup>*\<^sup>* p0 p
            \<and> map fst (queue p) = [2]
            \<and> \<not> (\<exists>p'. pool_step (gnb_validator no_bracket_check ''https://example.com/uk/''
                  first_item_cancelled) p p'))
     \<and> \<not> (\<exists>p. (pool_step (gnb_validator no_bracket_check ''https://example.com/uk/''
                  first_item_cancelled))\<^sup>*\<^sup>* p0 p
            \<and> (2 \<in> snd ` set (handed p) \<or> 2 \<in> set (validated p)))"
proof -
  let ?v = "gnb_validator no_bracket_check ''https://example.com/uk/'' first_item_cancelled"
  let ?p0 = "\<lparr>queue = [(1, 1, 2), (2, 2, 2)], unfinished = 2, workers = [Waiting],
              store = example_heap, handed = [], validated = []\<rparr>"
  let ?p1 = "\<lparr>queue = [(2, 2, 2)], unfinished = 2, workers = [Running (1, 1, 2)],
              store = example_heap, handed = [(0, 1)], validated = []\<rparr>"
  let ?p2 = "\<lparr>queue = [(2, 2, 2)], unfinished = 1, workers = [Dead ''CancelledError''],
              store = example_heap, handed = [(0, 1)], validated = [1]\<rparr>"
  have "pool_step ?v ?p0
          (?p0\<lparr>queue := [(2, 2, 2)], workers := (workers ?p0)[0 := Running (1, 1, 2)],
                handed := handed ?p0 @ [(0, fst (1::nat, 1::nat, 2::nat))]\<rparr>)"
    by (rule pool_step.get) (simp_all add: stopped_def)
  then have s1: "pool_step ?v ?p0 ?p1" by simp
  have "pool_step ?v ?p1
          (?p1\<lparr>unfinished := unfinished ?p1 - 1,
                workers := (workers ?p1)[0 := Dead (message (BaseExc ''CancelledError''))],
                store := (store ?p1)(fst (1::nat, 1::nat, 2::nat) := example_heap 1),
                validated := validated ?p1 @ [fst (1::nat, 1::nat, 2::nat)]\<rparr>)"
    by (rule pool_step.crash [where i = 0 and it = "(1, 1, 2)"])
       (use first_item_raises in \<open>simp_all add: stopped_def is_interrupt_def\<close>)
  then have s2: "pool_step ?v ?p1 ?p2" by (simp add: message_def)
  have run: "(pool_step ?v)\<^sup>*\<^sup>* ?p0 ?p2"
    using s1 s2 by (meson rtranclp.rtrancl_into_rtrancl rtranclp.rtrancl_refl)
  have stuck: "\<not> (\<exists>p'. pool_step ?v ?p2 p')"
    using no_alive_no_step [of ?p2 ?v] by auto
  have never: "\<not> (\<exists>p. (pool_step ?v)\<^sup>*\<^sup>* ?p0 p
            \<and> (2 \<in> snd ` set (handed p) \<or> 2 \<in> set (validated p)))"
  proof
    assume "\<exists>p. (pool_step ?v)\<^sup>*\<^sup>* ?p0 p
            \<and> (2 \<in> snd ` set (handed p) \<or> 2 \<in> set (validated p))"
    then obtain p where r: "(pool_step ?v)\<^sup>*\<^sup>* ?p0 p"
      and h: "2 \<in> snd ` set (handed p) \<or> 2 \<in> set (validated p)" by blast
    from example_links_reachable [OF r] h show False by auto
  qed
  have mid: "\<exists>p. (pool_step ?v)\<^sup>*\<^sup>* ?p0 p \<and> map fst (queue p) = [2]
            \<and> \<not> (\<exists>p'. pool_step ?v p p')"
  proof (rule exI, intro conjI)
    show "(pool_step ?v)\<^sup>*\<^sup>* ?p0 ?p2" by (rule run)
    show "map fst (queue ?p2) = [2]" by simp
    show "\<not> (\<exists>p'. pool_step ?v ?p2 p')" by (rule stuck)
  qed
  show ?thesis
  proof (rule exI, intro conjI)
    show "gnb_start (Some ''1'') example_heap example_links = Inr ?p0"
      by (rule example_links_start)
    show "map fst (queue ?p0) = [1, 2]" by simp
    show "length (workers ?p0) = 1" by simp
    show "\<exists>p. (pool_step ?v)\<^sup>*\<^sup>* ?p0 p \<and> map fst (queue p) = [2]
            \<and> \<not> (\<exists>p'. pool_step ?v p p')" by (rule mid)
    show "\<not> (\<exists>p. (pool_step ?v)\<^sup>*\<^sup>* ?p0 p
            \<and> (2 \<in> snd ` set (handed p) \<or> 2 \<in> set (validated p)))" by (rule never)
  qed
qed

text \<open>
  C9 (amended). A run on a tree in which no node object occurs twice, for any number of
  workers and any validator. At every point of the run: the queue has handed out its
  items in order, each at most once; no node is validated twice, and a node whose
  validation has ended is neither with a worker nor in the queue again; no two workers
  are validating the same node. Every run takes at most two steps for each enqueued
  node. With at least one worker and a validator that raises on no enqueued item, a run
  in which \<^verbatim>\<open>queue.join()\<close> has not returned can take a further step, so that the run
  ends with \<^verbatim>\<open>queue.join()\<close> returning; and when it returns, every enqueued node has been
  handed out exactly once and validated exactly once.
\<close>

theorem each_enqueued_node_validated_once:
  assumes "gnb_start getenv h nodes = Inr p0 \<or> shop_start getenv h nodes = Inr p0"
    and "distinct (map fst (queue p0))"
    and "(pool_step v)\<^sup>*\<^sup>* p0 p"
  shows "map snd (handed p) @ map fst (queue p) = map fst (queue p0)
       \<and> distinct (validated p @ running_refs (workers p) @ map fst (queue p))
       \<and> (\<forall>i<length (workers p). \<forall>j<length (workers p). \<forall>r.
             running_ref (workers p ! i) = Some r \<and> running_ref (workers p ! j) = Some r
             \<longrightarrow> i = j)
       \<and> (joined p \<longrightarrow> map snd (handed p) = map fst (queue p0)
                        \<and> mset (validated p) = mset (map fst (queue p0))
                        \<and> distinct (validated p))
       \<and> (\<forall>n. (pool_step v ^^ n) p0 p \<longrightarrow> n + work_left p = 2 * length (queue p0))
       \<and> (1 \<le> length (workers p0) \<and> quiet_on v (queue p0) \<and> \<not> joined p
            \<longrightarrow> (\<exists>p'. pool_step v p p'))"
proof -
  from start_is_init [OF assms(1)]
  obtain k refs0 where p0: "p0 = init_pool k h refs0" by blast
  then have q0: "map fst (queue p0) = refs0" by (simp add: init_pool_def)
  have inv0: "once_inv refs0 p0" using once_init p0 by simp
  have inv: "once_inv refs0 p"
    using once_run [OF assms(3)] inv0 by blast
  have d: "distinct (validated p @ running_refs (workers p) @ map fst (queue p))"
    using once_distinct [OF inv] assms(2) q0 by simp
  have a: "map snd (handed p) @ map fst (queue p) = map fst (queue p0)"
    using inv q0 by (simp add: once_inv_def)
  have b: "\<forall>i<length (workers p). \<forall>j<length (workers p). \<forall>r.
             running_ref (workers p ! i) = Some r \<and> running_ref (workers p ! j) = Some r
             \<longrightarrow> i = j"
    using d distinct_running_refs_inj [of "workers p"] by auto
  have c: "joined p \<longrightarrow> map snd (handed p) = map fst (queue p0)
             \<and> mset (validated p) = mset (map fst (queue p0)) \<and> distinct (validated p)"
  proof
    assume "joined p"
    then have e: "running_refs (workers p) = [] \<and> queue p = []"
      using inv by (simp add: joined_def once_inv_def)
    then show "map snd (handed p) = map fst (queue p0)
             \<and> mset (validated p) = mset (map fst (queue p0)) \<and> distinct (validated p)"
      using inv d q0 a by (simp add: once_inv_def)
  qed
  have e: "\<forall>n. (pool_step v ^^ n) p0 p \<longrightarrow> n + work_left p = 2 * length (queue p0)"
  proof (intro allI impI)
    fix n
    assume "(pool_step v ^^ n) p0 p"
    from work_left_steps [OF this inv0]
    have "work_left p0 = n + work_left p" by simp
    moreover have "work_left p0 = 2 * length (queue p0)"
      using p0 by (simp add: init_pool_def work_left_def)
    ultimately show "n + work_left p = 2 * length (queue p0)" by simp
  qed
  have f: "1 \<le> length (workers p0) \<and> quiet_on v (queue p0) \<and> \<not> joined p
            \<longrightarrow> (\<exists>p'. pool_step v p p')"
  proof
    assume h: "1 \<le> length (workers p0) \<and> quiet_on v (queue p0) \<and> \<not> joined p"
    with p0 have k: "1 \<le> k" by (simp add: init_pool_def)
    have "queue p0 = enqueue_all refs0" using p0 by (simp add: init_pool_def)
    moreover have "pending_items p0 = enqueue_all refs0" using p0 by simp
    ultimately have q: "quiet_on v (pending_items p0)" using h by simp
    have al: "list_ex is_alive (workers p0)" using init_alive [OF k] p0 by simp
    have ns: "\<not> stopped p0" using p0 by simp
    from quiet_run [OF assms(3) q al ns] h progress [OF inv]
    show "\<exists>p'. pool_step v p p'" by blast
  qed
  from a d b c e f show ?thesis by blast
qed

lemma all_pages_load_quiet:
  "quiet_on (gnb_validator bh page_url all_pages_load) its"
proof -
  have "\<And>idx k. calm (all_pages_load idx k)"
    by (simp add: all_pages_load_def calm_def)
  then have "\<And>it n. fst (gnb_validator bh page_url all_pages_load it n) = None"
    by (intro validators_calm(1)) simp
  then show ?thesis
    by (simp add: quiet_on_def list_all_iff)
qed

theorem each_enqueued_node_validated_once_witness:
  "gnb_start None example_heap example_menu =
     Inr \<lparr>queue = [(1, 1, 1)], unfinished = 1, workers = [Waiting, Waiting],
          store = example_heap, handed = [], validated = []\<rparr>
   \<and> (pool_step (gnb_validator no_bracket_check ''https://example.com/uk/'' all_pages_load))\<^sup>*\<^sup>*
        \<lparr>queue = [(1, 1, 1)], unfinished = 1, workers = [Waiting, Waiting],
         store = example_heap, handed = [], validated = []\<rparr>
        \<lparr>queue = [], unfinished = 0, workers = [Waiting, Waiting],
         store = example_heap
          (1 := (new_node ''L1'' ''Phones'' ''/uk/phones/'')\<lparr>link_status := 200, link_validate := True\<rparr>),
         handed = [(0, 1)], validated = [1]\<rparr>
   \<and> joined \<lparr>queue = [], unfinished = 0, workers = [Waiting, Waiting],
        store = example_heap
          (1 := (new_node ''L1'' ''Phones'' ''/uk/phones/'')\<lparr>link_status := 200, link_validate := True\<rparr>),
        handed = [(0, 1)], validated = [1]\<rparr>
   \<and> mset (validated \<lparr>queue = [], unfinished = 0, workers = [Waiting, Waiting],
        store = example_heap
          (1 := (new_node ''L1'' ''Phones'' ''/uk/phones/'')\<lparr>link_status := 200, link_validate := True\<rparr>),
        handed = [(0, 1)], validated = [1]\<rparr>) = mset [1]
   \<and> (\<exists>p'. pool_step (gnb_validator no_bracket_check ''https://example.com/uk/'' all_pages_load)
          \<lparr>queue = [], unfinished = 1, workers = [Running (1, 1, 1), Waiting],
           store = example_heap, handed = [(0, 1)], validated = []\<rparr> p')"
proof -
  let ?v = "gnb_validator no_bracket_check ''https://example.com/uk/'' all_pages_load"
  let ?n' = "(new_node ''L1'' ''Phones'' ''/uk/phones/'')\<lparr>link_status := 200, link_validate := True\<rparr>"
  let ?p0 = "\<lparr>queue = [(1, 1, 1)], unfinished = 1, workers = [Waiting, Waiting],
              store = example_heap, handed = [], validated = []\<rparr>"
  let ?p1 = "\<lparr>queue = [], unfinished = 1, workers = [Running (1, 1, 1), Waiting],
              store = example_heap, handed = [(0, 1)], validated = []\<rparr>"
  let ?p2 = "\<lparr>queue = [], unfinished = 0, workers = [Waiting, Waiting],
              store = example_heap(1 := ?n'), handed = [(0, 1)], validated = [1]\<rparr>"
  have start: "gnb_start None example_heap example_menu = Inr ?p0"
    by (simp add: gnb_start_def max_concurrent_def init_pool_def enqueue_all_def
        example_heap_def example_menu_def new_node_def eval_nat_numeral)
  have "pool_step ?v ?p0
          (?p0\<lparr>queue := [], workers := (workers ?p0)[0 := Running (1, 1, 1)],
                handed := handed ?p0 @ [(0, fst (1::nat, 1::nat, 1::nat))]\<rparr>)"
    by (rule pool_step.get) (simp_all add: stopped_def)
  then have s1: "pool_step ?v ?p0 ?p1" by simp
  have val: "?v (1, 1, 1) (example_heap 1) = (None, ?n')"
    by code_simp
  have "pool_step ?v ?p1
          (?p1\<lparr>unfinished := unfinished ?p1 - 1, workers := (workers ?p1)[0 := Waiting],
                store := (store ?p1)(fst (1::nat, 1::nat, 1::nat) := ?n'),
                validated := validated ?p1 @ [fst (1::nat, 1::nat, 1::nat)]\<rparr>)"
    by (rule pool_step.finish [where i = 0 and it = "(1, 1, 1)"])
       (use val in \<open>simp_all add: stopped_def\<close>)
  then have s2: "pool_step ?v ?p1 ?p2" by simp
  have run1: "(pool_step ?v)\<^sup>*\<^sup>* ?p0 ?p1" using s1 by (rule r_into_rtranclp)
  have run: "(pool_step ?v)\<^sup>*\<^sup>* ?p0 ?p2"
    using s1 s2 by (meson rtranclp.rtrancl_into_rtrancl rtranclp.rtrancl_refl)
  have d: "distinct (map fst (queue ?p0))" by simp
  have j: "joined ?p2" by (simp add: joined_def)
  have nj: "\<not> joined ?p1" by (simp add: joined_def)
  have k: "1 \<le> length (workers ?p0)" by simp
  have q: "quiet_on ?v (queue ?p0)" by (rule all_pages_load_quiet)
  from each_enqueued_node_validated_once [where h = example_heap and getenv = None
      and nodes = example_menu, OF disjI1 [OF start] d run] j
  have "mset (validated ?p2) = mset (map fst (queue ?p0))" by blast
  then have m: "mset (validated ?p2) = mset [1]" by simp
  from each_enqueued_node_validated_once [where h = example_heap and getenv = None
      and nodes = example_menu, OF disjI1 [OF start] d run1] k q nj
  have g: "\<exists>p'. pool_step ?v ?p1 p'" by blast
  show ?thesis
  proof (intro conjI)
    show "gnb_start None example_heap example_menu = Inr ?p0" by (rule start)
    show "(pool_step ?v)\<^sup>*\<^sup>* ?p0 ?p2" by (rule run)
    show "joined ?p2" by (rule j)
    show "mset (validated ?p2) = mset [1]" by (rule m)
    show "\<exists>p'. pool_step ?v ?p1 p'" by (rule g)
  qed
qed





lemma step_not_stopped: "pool_step v p p' \<Longrightarrow> \<not> stopped p"
  by (auto elim: pool_step.cases)






end
